theory Spec2Isabelle
  imports Main "HOL-Library.Word"
begin

section \<open>InvisiVote: the contract of src/contracts/InvisiVote.sol\<close>

text \<open>
  The contract keeps one encrypted counter per option of a vote, adds an encrypted
  0 or 1 to every counter on each ballot, and publishes clear counts only after the
  voting window and a checked decryption proof. This theory embeds the contract's
  storage and its four state-changing functions, and proves the properties stated
  about them.
\<close>

subsection \<open>Solidity value types\<close>

text \<open>
  \<open>uint32\<close>, \<open>uint64\<close>, \<open>address\<close> and \<open>bytes32\<close> are words of their width.
  \<open>uint256\<close> values (vote ids, the vote counter, array lengths and
  \<open>block.timestamp\<close>) are natural numbers; where the contract does arithmetic on
  them (\<open>++_voteCount\<close>) the checked overflow of Solidity 0.8 is written out, and the
  narrowing \<open>uint64(block.timestamp)\<close> is \<open>word_of_nat\<close>, which keeps the low 64 bits.
\<close>

type_synonym uint32 = "32 word"
type_synonym uint64 = "64 word"
type_synonym uint256 = nat
type_synonym address = "160 word"
type_synonym bytes = "8 word list"
type_synonym externalEuint32 = "256 word"

subsection \<open>The encrypted arithmetic capability (library FHE)\<close>

text \<open>
  Modelled from the spec: the FHE library (\<open>@fhevm/solidity/lib/FHE.sol\<close>) is an
  external collaborator whose code is not part of the repository. The spec (sections 1, 2
  and 6) describes it as a capability that holds opaque encrypted integers, adds two of
  them, compares one with a constant, selects between two by an encrypted boolean,
  ingests an externally supplied input after checking its proof, grants public
  decryption, and verifies a decryption proof. A ciphertext is modelled by the term
  that produced it: every call of \<open>FHE.asEuint32\<close>, \<open>FHE.add\<close>, \<open>FHE.eq\<close> and
  \<open>FHE.select\<close> is a constructor, and \<open>Input h\<close> is what \<open>FHE.fromExternal\<close> returns
  for the external handle \<open>h\<close>.
\<close>

datatype euint32 =
    FHE_asEuint32 uint32
  | Input externalEuint32
  | FHE_add euint32 euint32
  | FHE_select ebool euint32 euint32
and ebool =
    FHE_eq euint32 euint32

text \<open>
  Modelled from the spec: "correctness of add/compare/select under encryption".
  \<open>decrypt clear\<close> is the plain value of a ciphertext, where \<open>clear h\<close> is the
  plain value the holder of the external handle \<open>h\<close> encrypted. Addition of
  \<open>euint32\<close> is addition of 32-bit values.
\<close>

fun decrypt :: "(externalEuint32 \<Rightarrow> uint32) \<Rightarrow> euint32 \<Rightarrow> uint32"
and decrypt_bool :: "(externalEuint32 \<Rightarrow> uint32) \<Rightarrow> ebool \<Rightarrow> bool" where
  "decrypt clear (FHE_asEuint32 n) = n"
| "decrypt clear (Input h) = clear h"
| "decrypt clear (FHE_add a b) = decrypt clear a + decrypt clear b"
| "decrypt clear (FHE_select c a b) = (if decrypt_bool clear c then decrypt clear a else decrypt clear b)"
| "decrypt_bool clear (FHE_eq a b) = (decrypt clear a = decrypt clear b)"

text \<open>
  Modelled from the spec: the two proof checks of the capability,
  \<open>ingest(opaque_handle, proof)\<close> and
  \<open>verify_decryption(Ciphertext[], claimed_plain_values[], proof)\<close>, are parameters:
  the theorems hold for every outcome they may have.
\<close>

record capability =
  verifyInput :: "externalEuint32 \<Rightarrow> bytes \<Rightarrow> bool"
  verifyDecryption :: "euint32 list \<Rightarrow> uint32 list \<Rightarrow> bytes \<Rightarrow> bool"

text \<open>
  Modelled from the spec: the permissions the capability records, the ciphertexts
  the contract may keep using (\<open>FHE.allowThis\<close>) and those granted public decryption
  (\<open>FHE.makePubliclyDecryptable\<close>, "once granted it cannot be revoked").
\<close>

record acl =
  allowedThis :: "euint32 set"
  publiclyDecryptable :: "euint32 set"

definition FHE_allowThis :: "euint32 \<Rightarrow> acl \<Rightarrow> acl" where
  "FHE_allowThis c a = a\<lparr>allowedThis := insert c (allowedThis a)\<rparr>"

definition FHE_makePubliclyDecryptable :: "euint32 \<Rightarrow> acl \<Rightarrow> acl" where
  "FHE_makePubliclyDecryptable c a = a\<lparr>publiclyDecryptable := insert c (publiclyDecryptable a)\<rparr>"

subsection \<open>Errors and events\<close>

text \<open>
  The eleven custom errors of the contract, the \<open>Panic(uint256)\<close> of a checked
  arithmetic overflow (code 17) or an array index out of bounds (code 50), and the
  reverts of the two proof checks of the FHE library.
\<close>

datatype error =
    VoteNotFound uint256
  | InvalidOptionsCount uint256
  | InvalidTimeRange uint64 uint64
  | VotingNotStarted uint256
  | VotingStillActive uint256
  | VotingEnded uint256
  | AlreadyVoted uint256 address
  | DecryptionAlreadyRequested uint256
  | ResultsNotReady uint256
  | ResultsAlreadyPublished uint256
  | InvalidResultsLength uint256 uint256
  | Panic nat
  | InputProofInvalid
  | DecryptionProofInvalid

datatype event =
    VoteCreated uint256 address string uint64 uint64
  | VoteCast uint256 address
  | ResultsDecryptionRequested uint256
  | ResultsPublished uint256

definition FHE_fromExternal :: "capability \<Rightarrow> externalEuint32 \<Rightarrow> bytes \<Rightarrow> error + euint32" where
  "FHE_fromExternal cap h inputProof =
     (if verifyInput cap h inputProof then Inr (Input h) else Inl InputProofInvalid)"

definition FHE_checkSignatures :: "capability \<Rightarrow> euint32 list \<Rightarrow> uint32 list \<Rightarrow> bytes \<Rightarrow> error + unit" where
  "FHE_checkSignatures cap handles cleartexts decryptionProof =
     (if verifyDecryption cap handles cleartexts decryptionProof then Inr ()
      else Inl DecryptionProofInvalid)"

subsection \<open>Storage\<close>

record Vote =
  title :: string
  options :: "string list"
  startTime :: uint64
  endTime :: uint64
  creator :: address
  decryptionRequested :: bool
  resultsPublished :: bool
  encryptedCounts :: "euint32 list"
  publicResults :: "uint32 list"

text \<open>
  The contract's storage (\<open>_voteCount\<close>, \<open>_votes\<close>, \<open>_hasVoted\<close>), the permissions
  held by the capability, and the log of emitted events.
\<close>

record contract =
  voteCount :: uint256
  votes :: "uint256 \<Rightarrow> Vote"
  hasVoted :: "uint256 \<Rightarrow> address \<Rightarrow> bool"
  permissions :: acl
  events :: "event list"

text \<open>A storage slot that was never written reads as zero.\<close>

definition zero_Vote :: Vote where
  "zero_Vote = \<lparr>title = [], options = [], startTime = 0, endTime = 0, creator = 0,
     decryptionRequested = False, resultsPublished = False,
     encryptedCounts = [], publicResults = []\<rparr>"

definition deployed :: contract where
  "deployed = \<lparr>voteCount = 0, votes = (\<lambda>_. zero_Vote), hasVoted = (\<lambda>_ _. False),
     permissions = \<lparr>allowedThis = {}, publiclyDecryptable = {}\<rparr>, events = []\<rparr>"

subsection \<open>The functions of the contract\<close>

text \<open>
  Every function takes \<open>msg.sender\<close> and \<open>block.timestamp\<close> where it reads them, and
  the storage; it returns the error of a revert, or the storage after the call.
\<close>

definition getVote_internal :: "contract \<Rightarrow> uint256 \<Rightarrow> error + Vote" where
  "getVote_internal s voteId =
     (if voteId = 0 \<or> voteId > voteCount s then Inl (VoteNotFound voteId)
      else Inr (votes s voteId))"

text \<open>
  The loop of \<open>createVote\<close>: pushes one option and one encrypted zero per round, and
  allows the contract on \<open>vote.encryptedCounts[i]\<close> (a checked index).
\<close>

function createVote_loop :: "string list \<Rightarrow> nat \<Rightarrow> Vote \<Rightarrow> acl \<Rightarrow> error + (Vote \<times> acl)" where
  "createVote_loop opts i vote a =
     (if i < length opts then
        (let vote1 = vote\<lparr>options := options vote @ [opts ! i]\<rparr>;
             zero = FHE_asEuint32 0;
             vote2 = vote1\<lparr>encryptedCounts := encryptedCounts vote1 @ [zero]\<rparr>
         in if i < length (encryptedCounts vote2)
            then createVote_loop opts (i + 1) vote2 (FHE_allowThis (encryptedCounts vote2 ! i) a)
            else Inl (Panic 50))
      else Inr (vote, a))"
  by pat_completeness auto
termination
  by (relation "measure (\<lambda>(opts, i, vote, a). length opts - i)") auto

definition createVote ::
  "address \<Rightarrow> uint256 \<Rightarrow> contract \<Rightarrow> string \<Rightarrow> string list \<Rightarrow> uint64 \<Rightarrow> uint64
     \<Rightarrow> error + (contract \<times> uint256)" where
  "createVote msg_sender block_timestamp s title' options' startTime' endTime' =
     (if length options' < 2 \<or> length options' > 4 then Inl (InvalidOptionsCount (length options'))
      else if endTime' \<le> startTime' \<or> endTime' \<le> (word_of_nat block_timestamp :: uint64)
        then Inl (InvalidTimeRange startTime' endTime')
      else if voteCount s + 1 \<ge> 2 ^ 256 then Inl (Panic 17)
      else
        (let voteId = voteCount s + 1;
             vote = (votes s voteId)\<lparr>title := title', startTime := startTime',
                       endTime := endTime', creator := msg_sender\<rparr>
         in case createVote_loop options' 0 vote (permissions s) of
              Inl e \<Rightarrow> Inl e
            | Inr (vote', a) \<Rightarrow>
                Inr (s\<lparr>voteCount := voteId, votes := (votes s)(voteId := vote'),
                        permissions := a,
                        events := events s @ [VoteCreated voteId msg_sender title' startTime' endTime']\<rparr>,
                     voteId)))"

text \<open>
  The loop of \<open>castVote\<close>: for every index below the option count, the encrypted
  comparison of the choice with the index, the encrypted selection of 1 or 0, and the
  encrypted addition to \<open>vote.encryptedCounts[i]\<close>.
\<close>

definition increment :: "euint32 \<Rightarrow> nat \<Rightarrow> euint32" where
  "increment choice i =
     FHE_select (FHE_eq choice (FHE_asEuint32 (word_of_nat i))) (FHE_asEuint32 1) (FHE_asEuint32 0)"

function castVote_loop :: "euint32 \<Rightarrow> nat \<Rightarrow> nat \<Rightarrow> euint32 list \<Rightarrow> acl \<Rightarrow> error + (euint32 list \<times> acl)" where
  "castVote_loop choice optionCount i counts a =
     (if i < optionCount then
        (if i < length counts then
           (let counts' = counts[i := FHE_add (counts ! i) (increment choice i)]
            in castVote_loop choice optionCount (i + 1) counts' (FHE_allowThis (counts' ! i) a))
         else Inl (Panic 50))
      else Inr (counts, a))"
  by pat_completeness auto
termination
  by (relation "measure (\<lambda>(choice, optionCount, i, counts, a). optionCount - i)") auto

definition castVote ::
  "capability \<Rightarrow> address \<Rightarrow> uint256 \<Rightarrow> contract \<Rightarrow> uint256 \<Rightarrow> externalEuint32 \<Rightarrow> bytes
     \<Rightarrow> error + contract" where
  "castVote cap msg_sender block_timestamp s voteId encryptedChoice inputProof =
     (case getVote_internal s voteId of
        Inl e \<Rightarrow> Inl e
      | Inr vote \<Rightarrow>
          if block_timestamp < unat (startTime vote) then Inl (VotingNotStarted voteId)
          else if block_timestamp > unat (endTime vote) then Inl (VotingEnded voteId)
          else if hasVoted s voteId msg_sender then Inl (AlreadyVoted voteId msg_sender)
          else
            (let s1 = s\<lparr>hasVoted := (hasVoted s)(voteId := (hasVoted s voteId)(msg_sender := True))\<rparr>
             in case FHE_fromExternal cap encryptedChoice inputProof of
                  Inl e \<Rightarrow> Inl e
                | Inr choice \<Rightarrow>
                    (case castVote_loop choice (length (options vote)) 0 (encryptedCounts vote) (permissions s1) of
                       Inl e \<Rightarrow> Inl e
                     | Inr (counts', a) \<Rightarrow>
                         Inr (s1\<lparr>votes := (votes s1)(voteId := vote\<lparr>encryptedCounts := counts'\<rparr>),
                                 permissions := a,
                                 events := events s1 @ [VoteCast voteId msg_sender]\<rparr>))))"

function requestResultsDecryption_loop :: "nat \<Rightarrow> euint32 list \<Rightarrow> acl \<Rightarrow> acl" where
  "requestResultsDecryption_loop i counts a =
     (if i < length counts
      then requestResultsDecryption_loop (i + 1) counts (FHE_makePubliclyDecryptable (counts ! i) a)
      else a)"
  by pat_completeness auto
termination
  by (relation "measure (\<lambda>(i, counts, a). length counts - i)") auto

definition requestResultsDecryption :: "uint256 \<Rightarrow> contract \<Rightarrow> uint256 \<Rightarrow> error + contract" where
  "requestResultsDecryption block_timestamp s voteId =
     (case getVote_internal s voteId of
        Inl e \<Rightarrow> Inl e
      | Inr vote \<Rightarrow>
          if block_timestamp \<le> unat (endTime vote) then Inl (VotingStillActive voteId)
          else if decryptionRequested vote then Inl (DecryptionAlreadyRequested voteId)
          else
            Inr (s\<lparr>votes := (votes s)(voteId := vote\<lparr>decryptionRequested := True\<rparr>),
                    permissions := requestResultsDecryption_loop 0 (encryptedCounts vote) (permissions s),
                    events := events s @ [ResultsDecryptionRequested voteId]\<rparr>))"

text \<open>
  The loop of \<open>publishResults\<close> fills \<open>handles\<close>, a fresh array of
  \<open>clearCounts.length\<close> entries, from \<open>vote.encryptedCounts[i]\<close> (a checked index), in
  the order of the indices; the list \<open>handles\<close> holds the entries filled so far.
  \<open>abi.encode(clearCounts)\<close> determines \<open>clearCounts\<close>, so the check takes the counts.
\<close>

function publishResults_loop :: "nat \<Rightarrow> nat \<Rightarrow> euint32 list \<Rightarrow> euint32 list \<Rightarrow> error + euint32 list" where
  "publishResults_loop n i counts handles =
     (if i < n then
        (if i < length counts then publishResults_loop n (i + 1) counts (handles @ [counts ! i])
         else Inl (Panic 50))
      else Inr handles)"
  by pat_completeness auto
termination
  by (relation "measure (\<lambda>(n, i, counts, handles). n - i)") auto

definition publishResults ::
  "capability \<Rightarrow> contract \<Rightarrow> uint256 \<Rightarrow> uint32 list \<Rightarrow> bytes \<Rightarrow> error + contract" where
  "publishResults cap s voteId clearCounts decryptionProof =
     (case getVote_internal s voteId of
        Inl e \<Rightarrow> Inl e
      | Inr vote \<Rightarrow>
          if \<not> decryptionRequested vote then Inl (ResultsNotReady voteId)
          else if resultsPublished vote then Inl (ResultsAlreadyPublished voteId)
          else if length clearCounts \<noteq> length (options vote)
            then Inl (InvalidResultsLength (length (options vote)) (length clearCounts))
          else
            (case publishResults_loop (length clearCounts) 0 (encryptedCounts vote) [] of
               Inl e \<Rightarrow> Inl e
             | Inr handles \<Rightarrow>
                 (case FHE_checkSignatures cap handles clearCounts decryptionProof of
                    Inl e \<Rightarrow> Inl e
                  | Inr _ \<Rightarrow>
                      Inr (s\<lparr>votes := (votes s)(voteId :=
                                vote\<lparr>publicResults := clearCounts, resultsPublished := True\<rparr>),
                              events := events s @ [ResultsPublished voteId]\<rparr>))))"

subsection \<open>Transactions and reachable states\<close>

datatype call =
    CreateVote string "string list" uint64 uint64
  | CastVote uint256 externalEuint32 bytes
  | RequestResultsDecryption uint256
  | PublishResults uint256 "uint32 list" bytes

record tx =
  tx_sender :: address
  tx_timestamp :: uint256
  tx_call :: call

definition execute :: "capability \<Rightarrow> contract \<Rightarrow> tx \<Rightarrow> error + contract" where
  "execute cap s t =
     (case tx_call t of
        CreateVote title' options' startTime' endTime' \<Rightarrow>
          (case createVote (tx_sender t) (tx_timestamp t) s title' options' startTime' endTime' of
             Inl e \<Rightarrow> Inl e
           | Inr (s', voteId) \<Rightarrow> Inr s')
      | CastVote voteId encryptedChoice inputProof \<Rightarrow>
          castVote cap (tx_sender t) (tx_timestamp t) s voteId encryptedChoice inputProof
      | RequestResultsDecryption voteId \<Rightarrow> requestResultsDecryption (tx_timestamp t) s voteId
      | PublishResults voteId clearCounts decryptionProof \<Rightarrow>
          publishResults cap s voteId clearCounts decryptionProof)"

text \<open>A transaction that reverts leaves the storage as it was.\<close>

definition step :: "capability \<Rightarrow> contract \<Rightarrow> tx \<Rightarrow> contract" where
  "step cap s t = (case execute cap s t of Inl e \<Rightarrow> s | Inr s' \<Rightarrow> s')"

fun run :: "capability \<Rightarrow> contract \<Rightarrow> tx list \<Rightarrow> contract" where
  "run cap s [] = s"
| "run cap s (t # ts) = run cap (step cap s t) ts"

text \<open>
  The ballots of a history: \<open>ballot_choice\<close> is the encrypted choice of a transaction
  that is a \<open>castVote\<close> for the vote and does not revert; \<open>tally\<close> counts, along a
  history, the accepted ballots whose plain choice is the index \<open>i\<close>.
\<close>

definition ballot_choice :: "capability \<Rightarrow> contract \<Rightarrow> uint256 \<Rightarrow> tx \<Rightarrow> externalEuint32 option" where
  "ballot_choice cap s voteId t =
     (case tx_call t of
        CastVote v encryptedChoice inputProof \<Rightarrow>
          (case execute cap s t of
             Inl e \<Rightarrow> None
           | Inr s' \<Rightarrow> if v = voteId then Some encryptedChoice else None)
      | _ \<Rightarrow> None)"

definition counts_for :: "(externalEuint32 \<Rightarrow> uint32) \<Rightarrow> nat \<Rightarrow> externalEuint32 option \<Rightarrow> nat" where
  "counts_for clear i b = (case b of None \<Rightarrow> 0 | Some c \<Rightarrow> if unat (clear c) = i then 1 else 0)"

fun tally :: "capability \<Rightarrow> (externalEuint32 \<Rightarrow> uint32) \<Rightarrow> uint256 \<Rightarrow> nat \<Rightarrow> contract \<Rightarrow> tx list \<Rightarrow> nat" where
  "tally cap clear voteId i s [] = 0"
| "tally cap clear voteId i s (t # ts) =
     counts_for clear i (ballot_choice cap s voteId t) + tally cap clear voteId i (step cap s t) ts"

text \<open>The plain value of accumulator \<open>i\<close> of a vote; 0 where there is no such accumulator.\<close>

definition accumulator :: "(externalEuint32 \<Rightarrow> uint32) \<Rightarrow> contract \<Rightarrow> uint256 \<Rightarrow> nat \<Rightarrow> uint32" where
  "accumulator clear s voteId i =
     (if i < length (encryptedCounts (votes s voteId))
      then decrypt clear (encryptedCounts (votes s voteId) ! i) else 0)"

subsection \<open>Invariants of the storage\<close>

text \<open>
  What every reachable storage satisfies: each vote has one accumulator per option and
  at most four options, a published vote has its decryption requested and one result
  per option, and the slots at id 0 and above the counter were never written.
\<close>

definition vote_consistent :: "Vote \<Rightarrow> bool" where
  "vote_consistent v \<longleftrightarrow>
     length (encryptedCounts v) = length (options v) \<and> length (options v) \<le> 4 \<and>
     (resultsPublished v \<longrightarrow> decryptionRequested v \<and> length (publicResults v) = length (options v))"

definition wf :: "contract \<Rightarrow> bool" where
  "wf s \<longleftrightarrow>
     (\<forall>voteId. vote_consistent (votes s voteId)) \<and>
     (\<forall>voteId. voteId = 0 \<or> voteCount s < voteId \<longrightarrow> votes s voteId = zero_Vote)"

subsection \<open>A test double of the capability and sample transactions\<close>

text \<open>
  The plain value behind an external handle is its low 32 bits; an input proof is
  accepted when it is not empty; a decryption proof is accepted when it is not empty
  and the claimed counts are the plain values of the handles.
\<close>

definition demo_clear :: "externalEuint32 \<Rightarrow> uint32" where
  "demo_clear h = ucast h"

definition demo_cap :: capability where
  "demo_cap = \<lparr>verifyInput = (\<lambda>h p. p \<noteq> []),
               verifyDecryption = (\<lambda>hs cs p. p \<noteq> [] \<and> map (decrypt demo_clear) hs = cs)\<rparr>"

definition alice :: address where "alice = 1"
definition bob :: address where "bob = 2"
definition carol :: address where "carol = 3"

definition tx_create :: tx where
  "tx_create = \<lparr>tx_sender = alice, tx_timestamp = 5,
                 tx_call = CreateVote ''Lunch'' [''Pizza'', ''Salad''] 10 100\<rparr>"

definition tx_vote :: "address \<Rightarrow> uint256 \<Rightarrow> externalEuint32 \<Rightarrow> tx" where
  "tx_vote voter now choice = \<lparr>tx_sender = voter, tx_timestamp = now, tx_call = CastVote 1 choice [1]\<rparr>"

definition tx_request :: tx where
  "tx_request = \<lparr>tx_sender = bob, tx_timestamp = 101, tx_call = RequestResultsDecryption 1\<rparr>"

definition tx_publish :: tx where
  "tx_publish = \<lparr>tx_sender = carol, tx_timestamp = 150, tx_call = PublishResults 1 [2, 1] [1]\<rparr>"

text \<open>One vote created, and \<open>2 ^ 32\<close> voters who each cast a ballot for option 0.\<close>

definition crowd :: nat where
  "crowd = 2 ^ 32"

definition tx_crowd :: "nat \<Rightarrow> tx" where
  "tx_crowd j = tx_vote (word_of_nat j) 20 0"

definition crowd_history :: "tx list" where
  "crowd_history = tx_create # map tx_crowd [0..<crowd]"

definition demo_votes :: "tx list" where
  "demo_votes = [tx_create, tx_vote alice 20 0, tx_vote bob 20 1, tx_vote carol 30 0]"

definition demo_closed :: "tx list" where
  "demo_closed = demo_votes @ [tx_request]"

definition demo_published :: "tx list" where
  "demo_published = demo_closed @ [tx_publish]"

section \<open>Properties\<close>

subsection \<open>The loops in closed form\<close>

declare createVote_loop.simps [simp del] castVote_loop.simps [simp del]
  requestResultsDecryption_loop.simps [simp del] publishResults_loop.simps [simp del]

lemma castVote_loop_closed:
  "length counts = n \<Longrightarrow> i \<le> n \<Longrightarrow>
   castVote_loop choice n i counts a =
     Inr (take i counts @ map (\<lambda>j. FHE_add (counts ! j) (increment choice j)) [i..<n],
          a\<lparr>allowedThis := allowedThis a \<union> (\<lambda>j. FHE_add (counts ! j) (increment choice j)) ` {i..<n}\<rparr>)"
proof (induction "n - i" arbitrary: i counts a)
  case 0
  then show ?case by (simp add: castVote_loop.simps)
next
  case (Suc k)
  let ?f = "\<lambda>j. FHE_add (counts ! j) (increment choice j)"
  let ?c = "counts[i := ?f i]"
  from Suc.hyps(2) Suc.prems have lt: "i < n" and len: "i < length counts" by auto
  have k: "k = n - (i + 1)" using Suc.hyps(2) by simp
  have len': "length ?c = n" using Suc.prems by simp
  have ih: "castVote_loop choice n (i + 1) ?c (FHE_allowThis (?c ! i) a) =
     Inr (take (i + 1) ?c @ map (\<lambda>j. FHE_add (?c ! j) (increment choice j)) [i + 1..<n],
          (FHE_allowThis (?c ! i) a)\<lparr>allowedThis := allowedThis (FHE_allowThis (?c ! i) a)
             \<union> (\<lambda>j. FHE_add (?c ! j) (increment choice j)) ` {i + 1..<n}\<rparr>)"
    using Suc.hyps(1)[OF k len'] lt by simp
  have t: "take (i + 1) ?c = take i counts @ [?f i]"
    using len by (simp add: take_Suc_conv_app_nth)
  have m: "map (\<lambda>j. FHE_add (?c ! j) (increment choice j)) [i + 1..<n] = map ?f [i + 1..<n]"
    by (rule map_cong) auto
  have im: "(\<lambda>j. FHE_add (?c ! j) (increment choice j)) ` {i + 1..<n} = ?f ` {i + 1..<n}"
    by (rule image_cong) auto
  have u: "[i..<n] = i # [i + 1..<n]" using lt by (simp add: upt_conv_Cons)
  have s: "{i..<n} = insert i {i + 1..<n}" using lt by auto
  have unf: "castVote_loop choice n i counts a =
      castVote_loop choice n (i + 1) ?c (FHE_allowThis (?c ! i) a)"
    by (subst castVote_loop.simps) (simp add: lt len Let_def)
  show ?case
    unfolding unf ih t m im u s
    using len by (simp add: FHE_allowThis_def)
qed


lemma createVote_loop_closed:
  "i = length (encryptedCounts vote) \<Longrightarrow>
   createVote_loop opts i vote a =
     Inr (vote\<lparr>options := options vote @ drop i opts,
               encryptedCounts := encryptedCounts vote @ replicate (length opts - i) (FHE_asEuint32 0)\<rparr>,
          if i < length opts then FHE_allowThis (FHE_asEuint32 0) a else a)"
proof (induction "length opts - i" arbitrary: i vote a)
  case 0
  then show ?case by (simp add: createVote_loop.simps)
next
  case (Suc k)
  let ?v = "vote\<lparr>options := options vote @ [opts ! i],
                  encryptedCounts := encryptedCounts vote @ [FHE_asEuint32 0]\<rparr>"
  from Suc.hyps(2) have lt: "i < length opts" by simp
  have k: "k = length opts - (i + 1)" using Suc.hyps(2) by simp
  have i': "i + 1 = length (encryptedCounts ?v)" using Suc.prems by simp
  have unf: "createVote_loop opts i vote a =
      createVote_loop opts (i + 1) ?v (FHE_allowThis (FHE_asEuint32 0) a)"
    using lt Suc.prems by (subst createVote_loop.simps) (simp add: Let_def)
  have d: "drop i opts = opts ! i # drop (i + 1) opts"
    using lt by (simp add: Cons_nth_drop_Suc)
  have r: "replicate (length opts - i) (FHE_asEuint32 0) =
      FHE_asEuint32 0 # replicate (length opts - (i + 1)) (FHE_asEuint32 0)"
    using lt by (simp add: Suc_diff_Suc flip: replicate_Suc)
  show ?case
    unfolding unf Suc.hyps(1)[OF k i'] d r
    using lt by (simp add: FHE_allowThis_def)
qed

lemma createVote_loop_frame:
  "createVote_loop opts i vote a = Inr (vote', a') \<Longrightarrow>
   title vote' = title vote \<and> startTime vote' = startTime vote \<and> endTime vote' = endTime vote \<and>
   creator vote' = creator vote \<and> decryptionRequested vote' = decryptionRequested vote \<and>
   resultsPublished vote' = resultsPublished vote \<and> publicResults vote' = publicResults vote \<and>
   publiclyDecryptable a' = publiclyDecryptable a"
proof (induction opts i vote a rule: createVote_loop.induct)
  case (1 opts i vote a)
  show ?case
  proof (cases "i < length opts")
    case True
    with "1.prems" "1.IH" show ?thesis
      by (subst (asm) createVote_loop.simps) (auto simp: Let_def FHE_allowThis_def split: if_splits)
  next
    case False
    with "1.prems" show ?thesis
      by (subst (asm) createVote_loop.simps) simp
  qed
qed

lemma publishResults_loop_closed:
  "n \<le> length counts \<Longrightarrow> i \<le> n \<Longrightarrow>
   publishResults_loop n i counts handles = Inr (handles @ map (nth counts) [i..<n])"
proof (induction "n - i" arbitrary: i handles)
  case 0
  then show ?case by (simp add: publishResults_loop.simps)
next
  case (Suc k)
  from Suc.hyps(2) Suc.prems have lt: "i < n" and len: "i < length counts" by auto
  have k: "k = n - (i + 1)" using Suc.hyps(2) by simp
  have unf: "publishResults_loop n i counts handles =
      publishResults_loop n (i + 1) counts (handles @ [counts ! i])"
    using lt len by (subst publishResults_loop.simps) simp
  have u: "[i..<n] = i # [i + 1..<n]" using lt by (simp add: upt_conv_Cons)
  show ?case
    unfolding unf u using Suc.hyps(1)[OF k Suc.prems(1)] lt by simp
qed

lemma publishResults_loop_all:
  "publishResults_loop (length counts) 0 counts [] = Inr counts"
  by (simp add: publishResults_loop_closed map_nth)

lemma requestResultsDecryption_loop_closed:
  "requestResultsDecryption_loop i counts a =
     a\<lparr>publiclyDecryptable := publiclyDecryptable a \<union> set (drop i counts)\<rparr>"
proof (induction "length counts - i" arbitrary: i a)
  case 0
  then show ?case by (simp add: requestResultsDecryption_loop.simps)
next
  case (Suc k)
  from Suc.hyps(2) have lt: "i < length counts" by simp
  have k: "k = length counts - (i + 1)" using Suc.hyps(2) by simp
  have unf: "requestResultsDecryption_loop i counts a =
      requestResultsDecryption_loop (i + 1) counts (FHE_makePubliclyDecryptable (counts ! i) a)"
    using lt by (subst requestResultsDecryption_loop.simps) simp
  have d: "drop i counts = counts ! i # drop (i + 1) counts"
    using lt by (simp add: Cons_nth_drop_Suc)
  show ?case
    unfolding unf Suc.hyps(1)[OF k] d
    by (simp add: FHE_makePubliclyDecryptable_def)
qed


lemma wf_consistent: "wf s \<Longrightarrow> vote_consistent (votes s voteId)"
  by (simp add: wf_def)

lemma wf_lengths: "wf s \<Longrightarrow> length (encryptedCounts (votes s voteId)) = length (options (votes s voteId))"
  using wf_consistent [of s voteId] by (simp add: vote_consistent_def)

lemma wf_fresh: "wf s \<Longrightarrow> votes s (voteCount s + 1) = zero_Vote"
  by (simp add: wf_def)

lemma wf_deployed: "wf deployed"
  by (simp add: wf_def deployed_def vote_consistent_def zero_Vote_def)

lemma castVote_closed:
  assumes "length (encryptedCounts (votes s voteId)) = length (options (votes s voteId))"
  shows "castVote cap sender now s voteId c p =
    (if voteId = 0 \<or> voteCount s < voteId then Inl (VoteNotFound voteId)
     else if now < unat (startTime (votes s voteId)) then Inl (VotingNotStarted voteId)
     else if unat (endTime (votes s voteId)) < now then Inl (VotingEnded voteId)
     else if hasVoted s voteId sender then Inl (AlreadyVoted voteId sender)
     else if \<not> verifyInput cap c p then Inl InputProofInvalid
     else Inr (s\<lparr>hasVoted := (hasVoted s)(voteId := (hasVoted s voteId)(sender := True)),
               votes := (votes s)(voteId := (votes s voteId)\<lparr>encryptedCounts :=
                  map (\<lambda>i. FHE_add (encryptedCounts (votes s voteId) ! i) (increment (Input c) i))
                    [0..<length (options (votes s voteId))]\<rparr>),
               permissions := (permissions s)\<lparr>allowedThis := allowedThis (permissions s) \<union>
                  (\<lambda>i. FHE_add (encryptedCounts (votes s voteId) ! i) (increment (Input c) i)) `
                    {0..<length (options (votes s voteId))}\<rparr>,
               events := events s @ [VoteCast voteId sender]\<rparr>))"
  using assms
  by (simp add: castVote_def getVote_internal_def FHE_fromExternal_def Let_def
      castVote_loop_closed)

lemma createVote_closed:
  assumes "votes s (voteCount s + 1) = zero_Vote"
  shows "createVote sender now s title' options' startTime' endTime' =
    (if length options' < 2 \<or> 4 < length options' then Inl (InvalidOptionsCount (length options'))
     else if endTime' \<le> startTime' \<or> endTime' \<le> word_of_nat now then Inl (InvalidTimeRange startTime' endTime')
     else if 2 ^ 256 \<le> voteCount s + 1 then Inl (Panic 17)
     else Inr (s\<lparr>voteCount := voteCount s + 1,
               votes := (votes s)(voteCount s + 1 :=
                 \<lparr>title = title', options = options', startTime = startTime', endTime = endTime',
                  creator = sender, decryptionRequested = False, resultsPublished = False,
                  encryptedCounts = replicate (length options') (FHE_asEuint32 0),
                  publicResults = []\<rparr>),
               permissions := FHE_allowThis (FHE_asEuint32 0) (permissions s),
               events := events s @ [VoteCreated (voteCount s + 1) sender title' startTime' endTime']\<rparr>,
             voteCount s + 1))"
  using assms
  by (simp add: createVote_def Let_def createVote_loop_closed zero_Vote_def)

lemma requestResultsDecryption_closed:
  "requestResultsDecryption now s voteId =
    (if voteId = 0 \<or> voteCount s < voteId then Inl (VoteNotFound voteId)
     else if now \<le> unat (endTime (votes s voteId)) then Inl (VotingStillActive voteId)
     else if decryptionRequested (votes s voteId) then Inl (DecryptionAlreadyRequested voteId)
     else Inr (s\<lparr>votes := (votes s)(voteId := (votes s voteId)\<lparr>decryptionRequested := True\<rparr>),
               permissions := (permissions s)\<lparr>publiclyDecryptable :=
                  publiclyDecryptable (permissions s) \<union> set (encryptedCounts (votes s voteId))\<rparr>,
               events := events s @ [ResultsDecryptionRequested voteId]\<rparr>))"
  by (simp add: requestResultsDecryption_def getVote_internal_def
      requestResultsDecryption_loop_closed)

lemma publishResults_closed:
  assumes "length (encryptedCounts (votes s voteId)) = length (options (votes s voteId))"
  shows "publishResults cap s voteId clearCounts decryptionProof =
    (if voteId = 0 \<or> voteCount s < voteId then Inl (VoteNotFound voteId)
     else if \<not> decryptionRequested (votes s voteId) then Inl (ResultsNotReady voteId)
     else if resultsPublished (votes s voteId) then Inl (ResultsAlreadyPublished voteId)
     else if length clearCounts \<noteq> length (options (votes s voteId))
       then Inl (InvalidResultsLength (length (options (votes s voteId))) (length clearCounts))
     else if \<not> verifyDecryption cap (encryptedCounts (votes s voteId)) clearCounts decryptionProof
       then Inl DecryptionProofInvalid
     else Inr (s\<lparr>votes := (votes s)(voteId :=
                 (votes s voteId)\<lparr>publicResults := clearCounts, resultsPublished := True\<rparr>),
               events := events s @ [ResultsPublished voteId]\<rparr>))"
proof -
  have "length clearCounts = length (options (votes s voteId)) \<Longrightarrow>
     publishResults_loop (length clearCounts) 0 (encryptedCounts (votes s voteId)) [] =
       Inr (encryptedCounts (votes s voteId))"
    using assms publishResults_loop_all [of "encryptedCounts (votes s voteId)"] by simp
  then show ?thesis
    by (simp add: publishResults_def getVote_internal_def FHE_checkSignatures_def)
qed

lemma wf_step: "wf s \<Longrightarrow> wf (step cap s t)"
proof -
  assume w: "wf s"
  note L = wf_lengths [OF w]
  note F = wf_fresh [OF w]
  have C: "\<And>v. vote_consistent (votes s v)" using w by (simp add: wf_def)
  have Z: "\<And>v. v = 0 \<or> voteCount s < v \<Longrightarrow> votes s v = zero_Vote" using w unfolding wf_def by blast
  show ?thesis
  proof (cases "tx_call t")
    case (CreateVote ti os st en)
    then show ?thesis
      using C Z
      by (auto simp: step_def execute_def createVote_closed [OF F] wf_def vote_consistent_def)
  next
    case (CastVote v c p)
    then show ?thesis
      using C Z
      by (auto simp: step_def execute_def castVote_closed [OF L] wf_def vote_consistent_def)
  next
    case (RequestResultsDecryption v)
    then show ?thesis
      using C Z
      by (auto simp: step_def execute_def requestResultsDecryption_closed wf_def vote_consistent_def)
  next
    case (PublishResults v cs p)
    then show ?thesis
      using C Z
      by (auto simp: step_def execute_def publishResults_closed [OF L] wf_def vote_consistent_def)
  qed
qed

lemma wf_run: "wf s \<Longrightarrow> wf (run cap s txs)"
  by (induction txs arbitrary: s) (simp_all add: wf_step)

lemma wf_reachable: "wf (run cap deployed txs)"
  by (simp add: wf_run wf_deployed)



lemma castVote_loop_frame:
  "castVote_loop choice n i counts a = Inr (counts', a') \<Longrightarrow>
   publiclyDecryptable a' = publiclyDecryptable a \<and> allowedThis a \<subseteq> allowedThis a'"
proof (induction choice n i counts a rule: castVote_loop.induct)
  case (1 choice n i counts a)
  show ?case
  proof (cases "i < n \<and> i < length counts")
    case True
    with "1.prems" "1.IH" show ?thesis
      by (subst (asm) castVote_loop.simps) (auto simp: Let_def FHE_allowThis_def)
  next
    case False
    with "1.prems" show ?thesis
      by (subst (asm) castVote_loop.simps) (auto split: if_splits)
  qed
qed

lemma createVote_Inr:
  assumes "createVote sender now s title' options' startTime' endTime' = Inr (s', voteId)"
  shows "voteId = voteCount s + 1 \<and> voteCount s' = voteCount s + 1 \<and> hasVoted s' = hasVoted s \<and>
         (v \<noteq> voteCount s + 1 \<longrightarrow> votes s' v = votes s v) \<and>
         decryptionRequested (votes s' v) = decryptionRequested (votes s v) \<and>
         resultsPublished (votes s' v) = resultsPublished (votes s v) \<and>
         publicResults (votes s' v) = publicResults (votes s v)"
  using assms
  by (auto simp: createVote_def Let_def split: if_splits sum.splits prod.splits
      dest!: createVote_loop_frame)

lemma castVote_Inr:
  assumes "castVote cap sender now s voteId c p = Inr s'"
  shows "voteId \<noteq> 0 \<and> voteId \<le> voteCount s \<and>
         unat (startTime (votes s voteId)) \<le> now \<and> now \<le> unat (endTime (votes s voteId)) \<and>
         \<not> hasVoted s voteId sender \<and> verifyInput cap c p \<and>
         hasVoted s' = (hasVoted s)(voteId := (hasVoted s voteId)(sender := True)) \<and>
         voteCount s' = voteCount s \<and>
         (v \<noteq> voteId \<longrightarrow> votes s' v = votes s v) \<and>
         title (votes s' v) = title (votes s v) \<and> options (votes s' v) = options (votes s v) \<and>
         startTime (votes s' v) = startTime (votes s v) \<and> endTime (votes s' v) = endTime (votes s v) \<and>
         creator (votes s' v) = creator (votes s v) \<and>
         decryptionRequested (votes s' v) = decryptionRequested (votes s v) \<and>
         resultsPublished (votes s' v) = resultsPublished (votes s v) \<and>
         publicResults (votes s' v) = publicResults (votes s v) \<and>
         publiclyDecryptable (permissions s') = publiclyDecryptable (permissions s) \<and>
         allowedThis (permissions s) \<subseteq> allowedThis (permissions s') \<and>
         events s' = events s @ [VoteCast voteId sender]"
  using assms
  by (auto simp: castVote_def getVote_internal_def FHE_fromExternal_def Let_def
      split: if_splits sum.splits prod.splits dest!: castVote_loop_frame)

lemma requestResultsDecryption_Inr:
  assumes "requestResultsDecryption now s voteId = Inr s'"
  shows "voteId \<noteq> 0 \<and> voteId \<le> voteCount s \<and> unat (endTime (votes s voteId)) < now \<and>
         \<not> decryptionRequested (votes s voteId) \<and>
         hasVoted s' = hasVoted s \<and> voteCount s' = voteCount s \<and>
         votes s' = (votes s)(voteId := (votes s voteId)\<lparr>decryptionRequested := True\<rparr>)"
  using assms
  by (auto simp: requestResultsDecryption_closed split: if_splits)

lemma publishResults_Inr:
  assumes "publishResults cap s voteId clearCounts decryptionProof = Inr s'"
  shows "voteId \<noteq> 0 \<and> voteId \<le> voteCount s \<and> decryptionRequested (votes s voteId) \<and>
         \<not> resultsPublished (votes s voteId) \<and> length clearCounts = length (options (votes s voteId)) \<and>
         hasVoted s' = hasVoted s \<and> voteCount s' = voteCount s \<and>
         votes s' = (votes s)(voteId := (votes s voteId)\<lparr>publicResults := clearCounts, resultsPublished := True\<rparr>)"
  using assms
  by (auto simp: publishResults_def getVote_internal_def FHE_checkSignatures_def
      split: if_splits sum.splits)

lemma step_cases:
  obtains (reverted) "step cap s t = s"
  | (created) title' options' startTime' endTime' voteId where
      "tx_call t = CreateVote title' options' startTime' endTime'"
      "createVote (tx_sender t) (tx_timestamp t) s title' options' startTime' endTime' = Inr (step cap s t, voteId)"
  | (cast) voteId c p where
      "tx_call t = CastVote voteId c p"
      "castVote cap (tx_sender t) (tx_timestamp t) s voteId c p = Inr (step cap s t)"
  | (requested) voteId where
      "tx_call t = RequestResultsDecryption voteId"
      "requestResultsDecryption (tx_timestamp t) s voteId = Inr (step cap s t)"
  | (published) voteId clearCounts decryptionProof where
      "tx_call t = PublishResults voteId clearCounts decryptionProof"
      "publishResults cap s voteId clearCounts decryptionProof = Inr (step cap s t)"
proof (cases "execute cap s t")
  case (Inl e)
  then have "step cap s t = s" by (simp add: step_def)
  then show thesis by (rule reverted)
next
  case (Inr s')
  then have st: "step cap s t = s'" by (simp add: step_def)
  show thesis
  proof (cases "tx_call t")
    case (CreateVote title' options' startTime' endTime')
    with Inr obtain voteId where
      "createVote (tx_sender t) (tx_timestamp t) s title' options' startTime' endTime' = Inr (s', voteId)"
      by (auto simp: execute_def split: sum.splits prod.splits)
    with CreateVote st show thesis by (auto intro: created)
  next
    case (CastVote voteId c p)
    with Inr st show thesis by (auto simp: execute_def intro: cast)
  next
    case (RequestResultsDecryption voteId)
    with Inr st show thesis by (auto simp: execute_def intro: requested)
  next
    case (PublishResults voteId clearCounts decryptionProof)
    with Inr st show thesis by (auto simp: execute_def intro: published)
  qed
qed

lemma step_persist:
  assumes "voteId \<noteq> 0" "voteId \<le> voteCount s"
  shows "voteId \<le> voteCount (step cap s t) \<and>
         options (votes (step cap s t) voteId) = options (votes s voteId) \<and>
         startTime (votes (step cap s t) voteId) = startTime (votes s voteId) \<and>
         endTime (votes (step cap s t) voteId) = endTime (votes s voteId) \<and>
         (decryptionRequested (votes s voteId) \<longrightarrow> decryptionRequested (votes (step cap s t) voteId)) \<and>
         (resultsPublished (votes s voteId) \<longrightarrow> resultsPublished (votes (step cap s t) voteId)) \<and>
         (hasVoted s voteId voter \<longrightarrow> hasVoted (step cap s t) voteId voter)"
proof (cases rule: step_cases [of cap s t])
  case reverted
  then show ?thesis using assms by simp
next
  case (created title' options' startTime' endTime' v)
  from createVote_Inr [OF created(2), of voteId] assms show ?thesis by auto
next
  case (cast v c p)
  from castVote_Inr [OF cast(2), of voteId] assms show ?thesis
    by (cases "v = voteId") auto
next
  case (requested v)
  from requestResultsDecryption_Inr [OF requested(2)] assms show ?thesis
    by (cases "v = voteId") auto
next
  case (published v clearCounts decryptionProof)
  from publishResults_Inr [OF published(2)] assms show ?thesis
    by (cases "v = voteId") auto
qed

lemma run_persist:
  assumes "voteId \<noteq> 0" "voteId \<le> voteCount s"
  shows "voteId \<le> voteCount (run cap s txs) \<and>
         options (votes (run cap s txs) voteId) = options (votes s voteId) \<and>
         startTime (votes (run cap s txs) voteId) = startTime (votes s voteId) \<and>
         endTime (votes (run cap s txs) voteId) = endTime (votes s voteId) \<and>
         (decryptionRequested (votes s voteId) \<longrightarrow> decryptionRequested (votes (run cap s txs) voteId)) \<and>
         (resultsPublished (votes s voteId) \<longrightarrow> resultsPublished (votes (run cap s txs) voteId)) \<and>
         (hasVoted s voteId voter \<longrightarrow> hasVoted (run cap s txs) voteId voter)"
  using assms
proof (induction txs arbitrary: s)
  case Nil
  then show ?case by simp
next
  case (Cons t ts)
  from step_persist [OF Cons.prems, of cap t voter]
  have a: "voteId \<le> voteCount (step cap s t)" by simp
  from Cons.IH [OF Cons.prems(1) a] step_persist [OF Cons.prems, of cap t voter]
  show ?case by simp
qed

subsection \<open>Evaluation of the sample transactions\<close>

lemmas demo_defs = demo_votes_def demo_closed_def demo_published_def
  tx_create_def tx_vote_def tx_request_def tx_publish_def alice_def bob_def carol_def
  demo_cap_def demo_clear_def deployed_def zero_Vote_def

lemmas exec_defs = step_def execute_def createVote_def castVote_def requestResultsDecryption_def
  publishResults_def getVote_internal_def FHE_fromExternal_def FHE_checkSignatures_def
  FHE_allowThis_def FHE_makePubliclyDecryptable_def increment_def Let_def
  createVote_loop.simps castVote_loop.simps requestResultsDecryption_loop.simps publishResults_loop.simps

subsection \<open>Claims\<close>

text \<open>
  C9. In every state reached from the deployed contract, every vote has as many
  encrypted accumulators as options, and, once its results are published, as many
  published results as options; the same holds after any further transaction.
\<close>

theorem length_consistency:
  assumes "s = run cap deployed txs"
  shows "length (encryptedCounts (votes s voteId)) = length (options (votes s voteId)) \<and>
         (resultsPublished (votes s voteId) \<longrightarrow>
            length (publicResults (votes s voteId)) = length (options (votes s voteId))) \<and>
         length (encryptedCounts (votes (step cap s t) voteId)) = length (options (votes (step cap s t) voteId)) \<and>
         (resultsPublished (votes (step cap s t) voteId) \<longrightarrow>
            length (publicResults (votes (step cap s t) voteId)) = length (options (votes (step cap s t) voteId)))"
proof -
  have w: "wf s" using assms by (simp add: wf_reachable)
  from wf_consistent [OF w, of voteId] wf_consistent [OF wf_step [OF w], of cap t voteId]
  show ?thesis by (simp add: vote_consistent_def)
qed

theorem length_consistency_witness:
  "length (encryptedCounts (votes (run demo_cap deployed demo_closed) 1)) = 2 \<and>
   length (options (votes (run demo_cap deployed demo_closed) 1)) = 2 \<and>
   resultsPublished (votes (step demo_cap (run demo_cap deployed demo_closed) tx_publish) 1) \<and>
   length (publicResults (votes (step demo_cap (run demo_cap deployed demo_closed) tx_publish) 1)) = 2"
  using length_consistency [where cap = demo_cap and txs = demo_closed and voteId = 1
      and t = tx_publish, OF refl]
  by (simp add: demo_defs exec_defs)

text \<open>
  C3. For any transaction on any storage: \<open>decryptionRequested\<close> of a vote goes from false
  to true only in a \<open>requestResultsDecryption\<close> for that vote executed at a time after
  its \<open>endTime\<close>; \<open>resultsPublished\<close> goes from false to true only when
  \<open>decryptionRequested\<close> was already true; neither flag goes from true to false. In
  every reachable state a published vote has its decryption requested.
\<close>

theorem lifecycle_flags:
  assumes "s' = step cap s t"
  shows "(\<not> decryptionRequested (votes s voteId) \<and> decryptionRequested (votes s' voteId) \<longrightarrow>
            tx_call t = RequestResultsDecryption voteId \<and> unat (endTime (votes s voteId)) < tx_timestamp t) \<and>
         (\<not> resultsPublished (votes s voteId) \<and> resultsPublished (votes s' voteId) \<longrightarrow>
            decryptionRequested (votes s voteId)) \<and>
         (decryptionRequested (votes s voteId) \<longrightarrow> decryptionRequested (votes s' voteId)) \<and>
         (resultsPublished (votes s voteId) \<longrightarrow> resultsPublished (votes s' voteId)) \<and>
         (resultsPublished (votes (run cap deployed txs) voteId) \<longrightarrow>
            decryptionRequested (votes (run cap deployed txs) voteId))"
proof -
  have inv: "resultsPublished (votes (run cap deployed txs) voteId) \<longrightarrow>
      decryptionRequested (votes (run cap deployed txs) voteId)"
    using wf_consistent [OF wf_reachable, of cap txs voteId] by (simp add: vote_consistent_def)
  have "(\<not> decryptionRequested (votes s voteId) \<and> decryptionRequested (votes (step cap s t) voteId) \<longrightarrow>
            tx_call t = RequestResultsDecryption voteId \<and> unat (endTime (votes s voteId)) < tx_timestamp t) \<and>
         (\<not> resultsPublished (votes s voteId) \<and> resultsPublished (votes (step cap s t) voteId) \<longrightarrow>
            decryptionRequested (votes s voteId)) \<and>
         (decryptionRequested (votes s voteId) \<longrightarrow> decryptionRequested (votes (step cap s t) voteId)) \<and>
         (resultsPublished (votes s voteId) \<longrightarrow> resultsPublished (votes (step cap s t) voteId))"
  proof (cases rule: step_cases [of cap s t])
    case reverted
    then show ?thesis by simp
  next
    case (created title' options' startTime' endTime' v)
    from createVote_Inr [OF created(2), of voteId] show ?thesis by simp
  next
    case (cast v c p)
    from castVote_Inr [OF cast(2), of voteId] show ?thesis by simp
  next
    case (requested v)
    from requestResultsDecryption_Inr [OF requested(2)] requested(1) show ?thesis
      by (cases "v = voteId") auto
  next
    case (published v clearCounts decryptionProof)
    from publishResults_Inr [OF published(2)] show ?thesis
      by (cases "v = voteId") auto
  qed
  with inv assms show ?thesis by simp
qed

theorem lifecycle_flags_witness:
  "\<not> decryptionRequested (votes (run demo_cap deployed demo_votes) 1) \<and>
   decryptionRequested (votes (step demo_cap (run demo_cap deployed demo_votes) tx_request) 1) \<and>
   tx_call tx_request = RequestResultsDecryption 1 \<and>
   unat (endTime (votes (run demo_cap deployed demo_votes) 1)) < tx_timestamp tx_request \<and>
   resultsPublished (votes (run demo_cap deployed demo_published) 1) \<and>
   decryptionRequested (votes (run demo_cap deployed demo_published) 1)"
  using lifecycle_flags [where s = "run demo_cap deployed demo_votes" and cap = demo_cap
      and t = tx_request and voteId = 1 and txs = demo_published, OF refl]
  by (simp add: demo_defs exec_defs)

text \<open>
  C10. A successful \<open>castVote\<close> sets the caller's has-voted marker for the vote, which
  was false, and changes nothing of the vote but its encrypted accumulators; the vote
  counter, every other vote, every other marker and the set of publicly decryptable
  ciphertexts are unchanged.
\<close>

theorem castVote_frame:
  assumes "castVote cap sender now s voteId c p = Inr s'"
  shows "\<not> hasVoted s voteId sender \<and>
         hasVoted s' = (hasVoted s)(voteId := (hasVoted s voteId)(sender := True)) \<and>
         votes s' voteId = (votes s voteId)\<lparr>encryptedCounts := encryptedCounts (votes s' voteId)\<rparr> \<and>
         (v \<noteq> voteId \<longrightarrow> votes s' v = votes s v) \<and>
         voteCount s' = voteCount s \<and>
         publiclyDecryptable (permissions s') = publiclyDecryptable (permissions s)"
proof -
  from castVote_Inr [OF assms, of voteId] castVote_Inr [OF assms, of v]
  show ?thesis by simp
qed

theorem castVote_frame_witness:
  "\<not> hasVoted (run demo_cap deployed [tx_create]) 1 alice \<and>
   hasVoted (run demo_cap deployed [tx_create, tx_vote alice 20 0]) 1 alice \<and>
   title (votes (run demo_cap deployed [tx_create, tx_vote alice 20 0]) 1) = ''Lunch'' \<and>
   voteCount (run demo_cap deployed [tx_create, tx_vote alice 20 0]) = 1"
  using castVote_frame [where cap = demo_cap and sender = alice and now = 20
      and s = "run demo_cap deployed [tx_create]" and voteId = 1 and c = 0 and p = "[1]"
      and s' = "run demo_cap deployed [tx_create, tx_vote alice 20 0]" and v = 2]
  by (simp add: demo_defs exec_defs)

text \<open>
  C7. For an existing vote, \<open>requestResultsDecryption\<close> reverts with
  \<open>VotingStillActive\<close> at every time up to and including \<open>endTime\<close>; when decryption
  was not requested yet it succeeds at every later time, in particular at
  \<open>endTime + 1\<close>, sets \<open>decryptionRequested\<close> and makes every accumulator of the vote
  publicly decryptable; after a success, a call at the same or a later time, whatever
  transactions came between, reverts with \<open>DecryptionAlreadyRequested\<close>.
\<close>

theorem requestResultsDecryption_boundary:
  assumes "voteId \<noteq> 0" and "voteId \<le> voteCount s"
  shows "(now \<le> unat (endTime (votes s voteId)) \<longrightarrow>
            requestResultsDecryption now s voteId = Inl (VotingStillActive voteId)) \<and>
         (\<not> decryptionRequested (votes s voteId) \<and> unat (endTime (votes s voteId)) < now \<longrightarrow>
            requestResultsDecryption now s voteId =
              Inr (s\<lparr>votes := (votes s)(voteId := (votes s voteId)\<lparr>decryptionRequested := True\<rparr>),
                      permissions := (permissions s)\<lparr>publiclyDecryptable :=
                         publiclyDecryptable (permissions s) \<union> set (encryptedCounts (votes s voteId))\<rparr>,
                      events := events s @ [ResultsDecryptionRequested voteId]\<rparr>)) \<and>
         (\<not> decryptionRequested (votes s voteId) \<longrightarrow>
            \<not> isl (requestResultsDecryption (unat (endTime (votes s voteId)) + 1) s voteId)) \<and>
         (requestResultsDecryption now s voteId = Inr s1 \<and> now \<le> now' \<longrightarrow>
            requestResultsDecryption now' (run cap s1 txs) voteId = Inl (DecryptionAlreadyRequested voteId))"
proof -
  have later: "requestResultsDecryption now' (run cap s1 txs) voteId = Inl (DecryptionAlreadyRequested voteId)"
    if ok: "requestResultsDecryption now s voteId = Inr s1" and le: "now \<le> now'"
  proof -
    from requestResultsDecryption_Inr [OF ok]
    have e: "voteId \<le> voteCount s1" and d: "decryptionRequested (votes s1 voteId)"
      and t: "unat (endTime (votes s1 voteId)) < now" by auto
    from run_persist [OF assms(1) e, where cap = cap and txs = txs and voter = 0] d t le show ?thesis
      using assms(1) by (simp add: requestResultsDecryption_closed)
  qed
  show ?thesis
    using assms later by (simp add: requestResultsDecryption_closed)
qed

theorem requestResultsDecryption_boundary_witness:
  "requestResultsDecryption 100 (run demo_cap deployed demo_votes) 1 = Inl (VotingStillActive 1) \<and>
   requestResultsDecryption 101 (run demo_cap deployed demo_votes) 1 = Inr (run demo_cap deployed demo_closed) \<and>
   decryptionRequested (votes (run demo_cap deployed demo_closed) 1) \<and>
   set (encryptedCounts (votes (run demo_cap deployed demo_votes) 1))
     \<subseteq> publiclyDecryptable (permissions (run demo_cap deployed demo_closed)) \<and>
   requestResultsDecryption 150 (run demo_cap (run demo_cap deployed demo_closed) [tx_publish]) 1
     = Inl (DecryptionAlreadyRequested 1)"
proof -
  have e: "(1::nat) \<noteq> 0" "1 \<le> voteCount (run demo_cap deployed demo_votes)"
    by (simp_all add: demo_defs exec_defs)
  have ok: "requestResultsDecryption 101 (run demo_cap deployed demo_votes) 1 = Inr (run demo_cap deployed demo_closed)"
    by (simp add: demo_defs exec_defs)
  from requestResultsDecryption_boundary [OF e, where now = 100]
  have a: "requestResultsDecryption 100 (run demo_cap deployed demo_votes) 1 = Inl (VotingStillActive 1)"
    by (simp add: demo_defs exec_defs)
  from requestResultsDecryption_boundary [OF e, where now = 101 and now' = 150 and cap = demo_cap
      and ?s1.0 = "run demo_cap deployed demo_closed" and txs = "[tx_publish]"] ok
  have b: "requestResultsDecryption 150 (run demo_cap (run demo_cap deployed demo_closed) [tx_publish]) 1
     = Inl (DecryptionAlreadyRequested 1)"
    by simp
  have c: "decryptionRequested (votes (run demo_cap deployed demo_closed) 1) \<and>
     set (encryptedCounts (votes (run demo_cap deployed demo_votes) 1))
       \<subseteq> publiclyDecryptable (permissions (run demo_cap deployed demo_closed))"
    by (simp add: demo_defs exec_defs)
  from a ok b c show ?thesis by simp
qed

text \<open>
  C4, as stated, fails: alice votes at time 20 in a vote that ends at 100; her second
  \<open>castVote\<close>, at time 200, reverts with \<open>VotingEnded\<close>, not \<open>AlreadyVoted\<close>, because
  the window is checked before the marker.
\<close>

theorem exactly_once_voting_counterexample:
  "castVote demo_cap alice 20 (run demo_cap deployed [tx_create]) 1 0 [1]
     = Inr (run demo_cap deployed [tx_create, tx_vote alice 20 0]) \<and>
   castVote demo_cap alice 200 (run demo_cap deployed [tx_create, tx_vote alice 20 0]) 1 0 [1]
     = Inl (VotingEnded 1) \<and>
   castVote demo_cap alice 200 (run demo_cap deployed [tx_create, tx_vote alice 20 0]) 1 0 [1]
     \<noteq> Inl (AlreadyVoted 1 alice)"
  by (simp add: demo_defs exec_defs)

text \<open>
  C4, amended. After one successful \<open>castVote\<close> of a voter for a vote, and whatever
  transactions follow, every later \<open>castVote\<close> of the same voter for the same vote,
  with any encrypted input, reverts: with \<open>AlreadyVoted\<close> when the call is inside the
  voting window, with \<open>VotingNotStarted\<close> or \<open>VotingEnded\<close> outside it; the storage is
  unchanged by the rejected call.
\<close>

theorem exactly_once_voting:
  assumes "castVote cap voter now s voteId c p = Inr s1" and "s2 = run cap s1 txs"
  shows "castVote cap voter now' s2 voteId c' p' =
           Inl (if now' < unat (startTime (votes s voteId)) then VotingNotStarted voteId
                else if unat (endTime (votes s voteId)) < now' then VotingEnded voteId
                else AlreadyVoted voteId voter) \<and>
         step cap s2 \<lparr>tx_sender = voter, tx_timestamp = now', tx_call = CastVote voteId c' p'\<rparr> = s2"
proof -
  from castVote_Inr [OF assms(1), of voteId]
  have n: "voteId \<noteq> 0" and e: "voteId \<le> voteCount s1" and h: "hasVoted s1 voteId voter"
    and t: "startTime (votes s1 voteId) = startTime (votes s voteId)"
      "endTime (votes s1 voteId) = endTime (votes s voteId)"
    by auto
  from run_persist [OF n e, of cap txs voter] h t assms(2)
  have r: "castVote cap voter now' s2 voteId c' p' =
           Inl (if now' < unat (startTime (votes s voteId)) then VotingNotStarted voteId
                else if unat (endTime (votes s voteId)) < now' then VotingEnded voteId
                else AlreadyVoted voteId voter)"
    using n by (simp add: castVote_def getVote_internal_def)
  then show ?thesis by (simp add: step_def execute_def)
qed

theorem exactly_once_voting_witness:
  "castVote demo_cap alice 50 (run demo_cap deployed demo_votes) 1 1 [2] = Inl (AlreadyVoted 1 alice) \<and>
   step demo_cap (run demo_cap deployed demo_votes)
     \<lparr>tx_sender = alice, tx_timestamp = 50, tx_call = CastVote 1 1 [2]\<rparr> = run demo_cap deployed demo_votes"
proof -
  have ok: "castVote demo_cap alice 20 (run demo_cap deployed [tx_create]) 1 0 [1]
     = Inr (run demo_cap deployed [tx_create, tx_vote alice 20 0])"
    by (simp add: demo_defs exec_defs)
  have r: "run demo_cap deployed demo_votes =
      run demo_cap (run demo_cap deployed [tx_create, tx_vote alice 20 0]) [tx_vote bob 20 1, tx_vote carol 30 0]"
    by (simp add: demo_votes_def)
  have t: "startTime (votes (run demo_cap deployed [tx_create]) 1) = 10"
    "endTime (votes (run demo_cap deployed [tx_create]) 1) = 100"
    by (simp_all add: demo_defs exec_defs)
  from exactly_once_voting [OF ok r, where now' = 50 and c' = 1 and p' = "[2]"] t
  show ?thesis by simp
qed

text \<open>
  C5. In every reachable state \<open>castVote\<close> checks, in this order, that the vote exists
  (\<open>VoteNotFound\<close>), that the time is not before \<open>startTime\<close> (\<open>VotingNotStarted\<close>), that
  it is not after \<open>endTime\<close> (\<open>VotingEnded\<close>) and that the caller has no marker
  (\<open>AlreadyVoted\<close>); then the input proof is checked, and the call succeeds. So for an
  existing vote, a caller without marker and a valid input, the call is accepted
  exactly at the times \<open>t\<close> of the interval \<open>[startTime, endTime]\<close>, that is
  \<open>startTime \<le> t \<le> endTime\<close>.
\<close>

theorem castVote_preconditions:
  assumes "s = run cap deployed txs"
  shows "castVote cap sender now s voteId c p =
    (if voteId = 0 \<or> voteCount s < voteId then Inl (VoteNotFound voteId)
     else if now < unat (startTime (votes s voteId)) then Inl (VotingNotStarted voteId)
     else if unat (endTime (votes s voteId)) < now then Inl (VotingEnded voteId)
     else if hasVoted s voteId sender then Inl (AlreadyVoted voteId sender)
     else if \<not> verifyInput cap c p then Inl InputProofInvalid
     else Inr (step cap s \<lparr>tx_sender = sender, tx_timestamp = now, tx_call = CastVote voteId c p\<rparr>)) \<and>
    (voteId \<noteq> 0 \<and> voteId \<le> voteCount s \<and> \<not> hasVoted s voteId sender \<and> verifyInput cap c p \<longrightarrow>
       (\<not> isl (castVote cap sender now s voteId c p)) =
       (unat (startTime (votes s voteId)) \<le> now \<and> now \<le> unat (endTime (votes s voteId))))"
proof -
  have L: "length (encryptedCounts (votes s voteId)) = length (options (votes s voteId))"
    using assms by (simp add: wf_lengths wf_reachable)
  show ?thesis
    by (simp add: castVote_closed [OF L] step_def execute_def)
qed

theorem castVote_preconditions_witness:
  "castVote demo_cap alice 20 (run demo_cap deployed [tx_create]) 7 0 [1] = Inl (VoteNotFound 7) \<and>
   castVote demo_cap alice 9 (run demo_cap deployed [tx_create]) 1 0 [1] = Inl (VotingNotStarted 1) \<and>
   \<not> isl (castVote demo_cap alice 10 (run demo_cap deployed [tx_create]) 1 0 [1]) \<and>
   \<not> isl (castVote demo_cap alice 100 (run demo_cap deployed [tx_create]) 1 0 [1]) \<and>
   castVote demo_cap alice 101 (run demo_cap deployed [tx_create]) 1 0 [1] = Inl (VotingEnded 1) \<and>
   castVote demo_cap alice 101 (run demo_cap deployed demo_votes) 1 0 [1] = Inl (VotingEnded 1) \<and>
   castVote demo_cap alice 100 (run demo_cap deployed demo_votes) 1 0 [1] = Inl (AlreadyVoted 1 alice)"
proof -
  have f: "voteCount (run demo_cap deployed [tx_create]) = 1"
    "startTime (votes (run demo_cap deployed [tx_create]) 1) = 10"
    "endTime (votes (run demo_cap deployed [tx_create]) 1) = 100"
    "\<not> hasVoted (run demo_cap deployed [tx_create]) 1 alice"
    "verifyInput demo_cap 0 [1]"
    by (simp_all add: demo_defs exec_defs)
  have g: "voteCount (run demo_cap deployed demo_votes) = 1"
    "startTime (votes (run demo_cap deployed demo_votes) 1) = 10"
    "endTime (votes (run demo_cap deployed demo_votes) 1) = 100"
    "hasVoted (run demo_cap deployed demo_votes) 1 alice"
    by (simp_all add: demo_defs exec_defs)
  note T = castVote_preconditions [OF refl, where cap = demo_cap and txs = "[tx_create]"
      and sender = alice and c = 0 and p = "[1]"]
  note U = castVote_preconditions [OF refl, where cap = demo_cap and txs = demo_votes
      and sender = alice and c = 0 and p = "[1]" and voteId = 1]
  from T [where voteId = 7 and now = 20] f
  have a: "castVote demo_cap alice 20 (run demo_cap deployed [tx_create]) 7 0 [1] = Inl (VoteNotFound 7)"
    by simp
  from T [where voteId = 1 and now = 9] f
  have b: "castVote demo_cap alice 9 (run demo_cap deployed [tx_create]) 1 0 [1] = Inl (VotingNotStarted 1)"
    by simp
  from T [where voteId = 1 and now = 10] f
  have c: "\<not> isl (castVote demo_cap alice 10 (run demo_cap deployed [tx_create]) 1 0 [1])"
    by simp
  from T [where voteId = 1 and now = 100] f
  have d: "\<not> isl (castVote demo_cap alice 100 (run demo_cap deployed [tx_create]) 1 0 [1])"
    by simp
  from T [where voteId = 1 and now = 101] f
  have e: "castVote demo_cap alice 101 (run demo_cap deployed [tx_create]) 1 0 [1] = Inl (VotingEnded 1)"
    by simp
  from U [where now = 101] g
  have h: "castVote demo_cap alice 101 (run demo_cap deployed demo_votes) 1 0 [1] = Inl (VotingEnded 1)"
    by simp
  from U [where now = 100] g
  have i: "castVote demo_cap alice 100 (run demo_cap deployed demo_votes) 1 0 [1] = Inl (AlreadyVoted 1 alice)"
    by simp
  from a b c d e h i show ?thesis by simp
qed

text \<open>
  C2. In every reachable state and for an existing vote, \<open>publishResults\<close> reverts with
  \<open>ResultsNotReady\<close> when decryption was not requested, else with
  \<open>ResultsAlreadyPublished\<close> when results are published, else with
  \<open>InvalidResultsLength\<close> when the number of clear counts is not the number of options,
  else with \<open>DecryptionProofInvalid\<close> when the proof does not verify against the stored
  accumulators and the clear counts; otherwise it stores the clear counts and sets
  \<open>resultsPublished\<close>. A published vote always gives \<open>ResultsAlreadyPublished\<close>; a
  call that reverts leaves the storage as it was; and after a success every later call,
  whatever came between, reverts with \<open>ResultsAlreadyPublished\<close>.
\<close>

theorem publishResults_contract:
  assumes "s = run cap deployed txs" and "voteId \<noteq> 0" and "voteId \<le> voteCount s"
  shows "publishResults cap s voteId clearCounts decryptionProof =
    (if \<not> decryptionRequested (votes s voteId) then Inl (ResultsNotReady voteId)
     else if resultsPublished (votes s voteId) then Inl (ResultsAlreadyPublished voteId)
     else if length clearCounts \<noteq> length (options (votes s voteId))
       then Inl (InvalidResultsLength (length (options (votes s voteId))) (length clearCounts))
     else if \<not> verifyDecryption cap (encryptedCounts (votes s voteId)) clearCounts decryptionProof
       then Inl DecryptionProofInvalid
     else Inr (s\<lparr>votes := (votes s)(voteId :=
                 (votes s voteId)\<lparr>publicResults := clearCounts, resultsPublished := True\<rparr>),
               events := events s @ [ResultsPublished voteId]\<rparr>)) \<and>
    (resultsPublished (votes s voteId) \<longrightarrow>
       publishResults cap s voteId clearCounts decryptionProof = Inl (ResultsAlreadyPublished voteId)) \<and>
    (isl (publishResults cap s voteId clearCounts decryptionProof) \<longrightarrow>
       step cap s \<lparr>tx_sender = sender, tx_timestamp = now,
                   tx_call = PublishResults voteId clearCounts decryptionProof\<rparr> = s) \<and>
    (publishResults cap s voteId clearCounts decryptionProof = Inr s1 \<longrightarrow>
       publishResults cap (run cap s1 txs') voteId clearCounts' decryptionProof' =
         Inl (ResultsAlreadyPublished voteId))"
proof -
  have w: "wf s" using assms(1) by (simp add: wf_reachable)
  note L = wf_lengths [OF w, of voteId]
  have P: "resultsPublished (votes s voteId) \<longrightarrow> decryptionRequested (votes s voteId)"
    using wf_consistent [OF w, of voteId] by (simp add: vote_consistent_def)
  have again: "publishResults cap (run cap s1 txs') voteId clearCounts' decryptionProof' =
         Inl (ResultsAlreadyPublished voteId)"
    if ok: "publishResults cap s voteId clearCounts decryptionProof = Inr s1"
  proof -
    from publishResults_Inr [OF ok]
    have e: "voteId \<le> voteCount s1" and d: "decryptionRequested (votes s1 voteId)"
      and r: "resultsPublished (votes s1 voteId)" by auto
    from run_persist [OF assms(2) e, where cap = cap and txs = txs' and voter = 0] d r show ?thesis
      using assms(2) by (simp add: publishResults_def getVote_internal_def)
  qed
  have "isl (publishResults cap s voteId clearCounts decryptionProof) \<longrightarrow>
       step cap s \<lparr>tx_sender = sender, tx_timestamp = now,
                   tx_call = PublishResults voteId clearCounts decryptionProof\<rparr> = s"
    by (cases "publishResults cap s voteId clearCounts decryptionProof")
      (simp_all add: step_def execute_def)
  with again P assms(2,3) show ?thesis
    by (simp add: publishResults_closed [OF L])
qed

theorem publishResults_contract_witness:
  "publishResults demo_cap (run demo_cap deployed demo_votes) 1 [2, 1] [1] = Inl (ResultsNotReady 1) \<and>
   publishResults demo_cap (run demo_cap deployed demo_closed) 1 [2, 1, 0] [1] = Inl (InvalidResultsLength 2 3) \<and>
   publishResults demo_cap (run demo_cap deployed demo_closed) 1 [3, 0] [1] = Inl DecryptionProofInvalid \<and>
   step demo_cap (run demo_cap deployed demo_closed)
     \<lparr>tx_sender = carol, tx_timestamp = 150, tx_call = PublishResults 1 [3, 0] [1]\<rparr>
     = run demo_cap deployed demo_closed \<and>
   publishResults demo_cap (run demo_cap deployed demo_closed) 1 [2, 1] [1]
     = Inr (run demo_cap deployed demo_published) \<and>
   publicResults (votes (run demo_cap deployed demo_published) 1) = [2, 1] \<and>
   publishResults demo_cap (run demo_cap (run demo_cap deployed demo_published) [tx_vote bob 160 0]) 1 [2, 1] [1]
     = Inl (ResultsAlreadyPublished 1)"
proof -
  have e: "(1::nat) \<noteq> 0" "1 \<le> voteCount (run demo_cap deployed demo_votes)"
    "1 \<le> voteCount (run demo_cap deployed demo_closed)"
    by (simp_all add: demo_defs exec_defs)
  have f: "\<not> decryptionRequested (votes (run demo_cap deployed demo_votes) 1)"
    "decryptionRequested (votes (run demo_cap deployed demo_closed) 1)"
    "\<not> resultsPublished (votes (run demo_cap deployed demo_closed) 1)"
    "length (options (votes (run demo_cap deployed demo_closed) 1)) = 2"
    "\<not> verifyDecryption demo_cap (encryptedCounts (votes (run demo_cap deployed demo_closed) 1)) [3, 0] [1]"
    by (simp_all add: demo_defs exec_defs)
  have ok: "publishResults demo_cap (run demo_cap deployed demo_closed) 1 [2, 1] [1]
     = Inr (run demo_cap deployed demo_published)"
    by (simp add: demo_defs exec_defs)
  have pr: "publicResults (votes (run demo_cap deployed demo_published) 1) = [2, 1]"
    by (simp add: demo_defs exec_defs)
  note T = publishResults_contract [OF refl e(1) e(3)]
  from publishResults_contract [OF refl e(1) e(2), where clearCounts = "[2, 1]"
      and decryptionProof = "[1]"] f
  have a: "publishResults demo_cap (run demo_cap deployed demo_votes) 1 [2, 1] [1] = Inl (ResultsNotReady 1)"
    by simp
  from T [where clearCounts = "[2, 1, 0]" and decryptionProof = "[1]"] f
  have b: "publishResults demo_cap (run demo_cap deployed demo_closed) 1 [2, 1, 0] [1] = Inl (InvalidResultsLength 2 3)"
    by simp
  from T [where clearCounts = "[3, 0]" and decryptionProof = "[1]" and sender = carol and now = 150] f
  have c: "publishResults demo_cap (run demo_cap deployed demo_closed) 1 [3, 0] [1] = Inl DecryptionProofInvalid \<and>
    step demo_cap (run demo_cap deployed demo_closed)
     \<lparr>tx_sender = carol, tx_timestamp = 150, tx_call = PublishResults 1 [3, 0] [1]\<rparr>
     = run demo_cap deployed demo_closed"
    by simp
  from T [where clearCounts = "[2, 1]" and decryptionProof = "[1]"
      and ?s1.0 = "run demo_cap deployed demo_published" and txs' = "[tx_vote bob 160 0]"
      and clearCounts' = "[2, 1]" and decryptionProof' = "[1]"] ok
  have d: "publishResults demo_cap (run demo_cap (run demo_cap deployed demo_published) [tx_vote bob 160 0]) 1 [2, 1] [1]
     = Inl (ResultsAlreadyPublished 1)"
    by simp
  from a b c ok pr d show ?thesis by simp
qed

lemma uint64_le_timestamp: "(e \<le> (word_of_nat now :: uint64)) = (unat e \<le> now mod 2 ^ 64)"
  by (simp add: word_le_nat_alt unat_of_nat)

text \<open>
  C6. The time of a block fits 64 bits, so \<open>uint64(block.timestamp)\<close> is the time
  itself. In every reachable state \<open>createVote\<close> then reverts with
  \<open>InvalidOptionsCount\<close> exactly when the number of options is outside \<open>[2, 4]\<close>;
  otherwise with \<open>InvalidTimeRange\<close> exactly when \<open>endTime \<le> startTime\<close> or \<open>endTime\<close> is
  at most the current time; otherwise, unless the counter is at its maximum, it
  succeeds, returns the counter plus one (the counter of the deployed contract is 0,
  so ids start at 1) and stores under that id a vote with the given title, options,
  times and creator, both flags false, no published results and one encrypted zero
  per option.
\<close>

theorem createVote_contract:
  assumes "s = run cap deployed txs" and "now < 2 ^ 64"
  shows "createVote sender now s title' options' startTime' endTime' =
    (if length options' < 2 \<or> 4 < length options' then Inl (InvalidOptionsCount (length options'))
     else if unat endTime' \<le> unat startTime' \<or> unat endTime' \<le> now
       then Inl (InvalidTimeRange startTime' endTime')
     else if 2 ^ 256 \<le> voteCount s + 1 then Inl (Panic 17)
     else Inr (s\<lparr>voteCount := voteCount s + 1,
               votes := (votes s)(voteCount s + 1 :=
                 \<lparr>title = title', options = options', startTime = startTime', endTime = endTime',
                  creator = sender, decryptionRequested = False, resultsPublished = False,
                  encryptedCounts = replicate (length options') (FHE_asEuint32 0),
                  publicResults = []\<rparr>),
               permissions := FHE_allowThis (FHE_asEuint32 0) (permissions s),
               events := events s @ [VoteCreated (voteCount s + 1) sender title' startTime' endTime']\<rparr>,
             voteCount s + 1)) \<and>
    voteCount (run cap deployed []) = 0"
proof -
  have F: "votes s (voteCount s + 1) = zero_Vote"
    unfolding assms(1) by (rule wf_fresh [OF wf_reachable])
  have T: "(endTime' \<le> (word_of_nat now :: uint64)) = (unat endTime' \<le> now)"
    using assms(2) by (simp only: uint64_le_timestamp mod_less)
  have S: "(endTime' \<le> startTime') = (unat endTime' \<le> unat startTime')"
    by (rule word_le_nat_alt)
  show ?thesis
    unfolding createVote_closed [OF F] T S by (simp add: deployed_def)
qed

theorem createVote_contract_witness:
  "createVote alice 5 deployed ''Lunch'' [''Pizza''] 10 100 = Inl (InvalidOptionsCount 1) \<and>
   createVote alice 5 deployed ''Lunch'' [''1'', ''2'', ''3'', ''4'', ''5''] 10 100 = Inl (InvalidOptionsCount 5) \<and>
   createVote alice 5 deployed ''Lunch'' [''Pizza'', ''Salad''] 10 10 = Inl (InvalidTimeRange 10 10) \<and>
   createVote alice 100 deployed ''Lunch'' [''Pizza'', ''Salad''] 10 100 = Inl (InvalidTimeRange 10 100) \<and>
   createVote alice 5 deployed ''Lunch'' [''Pizza'', ''Salad''] 10 100 = Inr (run demo_cap deployed [tx_create], 1) \<and>
   encryptedCounts (votes (run demo_cap deployed [tx_create]) 1) = [FHE_asEuint32 0, FHE_asEuint32 0]"
proof -
  have n5: "(5::nat) < 2 ^ 64" and n100: "(100::nat) < 2 ^ 64" by simp_all
  note T5 = createVote_contract [OF refl n5, where cap = demo_cap and txs = "[]" and sender = alice
      and title' = "''Lunch''"]
  note T100 = createVote_contract [OF refl n100, where cap = demo_cap and txs = "[]" and sender = alice
      and title' = "''Lunch''"]
  have v: "voteCount deployed = 0" "run demo_cap deployed [] = deployed"
    by (simp_all add: deployed_def)
  from T5 [where options' = "[''Pizza'']" and startTime' = 10 and endTime' = 100] v
  have a: "createVote alice 5 deployed ''Lunch'' [''Pizza''] 10 100 = Inl (InvalidOptionsCount 1)"
    by simp
  from T5 [where options' = "[''1'', ''2'', ''3'', ''4'', ''5'']" and startTime' = 10 and endTime' = 100] v
  have b: "createVote alice 5 deployed ''Lunch'' [''1'', ''2'', ''3'', ''4'', ''5''] 10 100 = Inl (InvalidOptionsCount 5)"
    by simp
  from T5 [where options' = "[''Pizza'', ''Salad'']" and startTime' = 10 and endTime' = 10] v
  have c: "createVote alice 5 deployed ''Lunch'' [''Pizza'', ''Salad''] 10 10 = Inl (InvalidTimeRange 10 10)"
    by simp
  from T100 [where options' = "[''Pizza'', ''Salad'']" and startTime' = 10 and endTime' = 100] v
  have d: "createVote alice 100 deployed ''Lunch'' [''Pizza'', ''Salad''] 10 100 = Inl (InvalidTimeRange 10 100)"
    by simp
  have r: "run demo_cap deployed [tx_create] =
      deployed\<lparr>voteCount := 1,
               votes := (votes deployed)(1 :=
                 \<lparr>title = ''Lunch'', options = [''Pizza'', ''Salad''], startTime = 10, endTime = 100,
                  creator = alice, decryptionRequested = False, resultsPublished = False,
                  encryptedCounts = [FHE_asEuint32 0, FHE_asEuint32 0], publicResults = []\<rparr>),
               permissions := FHE_allowThis (FHE_asEuint32 0) (permissions deployed),
               events := events deployed @ [VoteCreated 1 alice ''Lunch'' 10 100]\<rparr>"
    by (simp add: demo_defs exec_defs)
  from T5 [where options' = "[''Pizza'', ''Salad'']" and startTime' = 10 and endTime' = 100] v
  have e: "createVote alice 5 deployed ''Lunch'' [''Pizza'', ''Salad''] 10 100 = Inr (run demo_cap deployed [tx_create], 1)"
    unfolding r by simp
  have f: "encryptedCounts (votes (run demo_cap deployed [tx_create]) 1) = [FHE_asEuint32 0, FHE_asEuint32 0]"
    by (simp add: demo_defs exec_defs)
  from a b c d e f show ?thesis by simp
qed

text \<open>
  C8, as stated, fails: a vote with \<open>startTime = 0\<close> is created and stored.
\<close>

theorem createVote_postcondition_counterexample:
  "createVote alice 50 deployed ''Lunch'' [''Pizza'', ''Salad''] 0 100 =
     Inr (run demo_cap deployed [\<lparr>tx_sender = alice, tx_timestamp = 50,
            tx_call = CreateVote ''Lunch'' [''Pizza'', ''Salad''] 0 100\<rparr>], 1) \<and>
   \<not> 0 < startTime (votes (run demo_cap deployed [\<lparr>tx_sender = alice, tx_timestamp = 50,
            tx_call = CreateVote ''Lunch'' [''Pizza'', ''Salad''] 0 100\<rparr>]) 1)"
  by (simp add: demo_defs exec_defs)

text \<open>
  C8, amended. After every successful \<open>createVote\<close> in a reachable state, the stored
  vote has the given options, between 2 and 4 of them, and
  \<open>endTime > startTime \<ge> 0\<close>, hence \<open>endTime > 0\<close>.
\<close>

theorem createVote_postcondition:
  assumes "s = run cap deployed txs"
    and "createVote sender now s title' options' startTime' endTime' = Inr (s', voteId)"
  shows "options (votes s' voteId) = options' \<and>
         2 \<le> length (options (votes s' voteId)) \<and> length (options (votes s' voteId)) \<le> 4 \<and>
         startTime (votes s' voteId) = startTime' \<and> endTime (votes s' voteId) = endTime' \<and>
         startTime (votes s' voteId) < endTime (votes s' voteId) \<and>
         0 \<le> startTime (votes s' voteId) \<and> 0 < endTime (votes s' voteId)"
proof -
  have F: "votes s (voteCount s + 1) = zero_Vote"
    unfolding assms(1) by (rule wf_fresh [OF wf_reachable])
  from assms(2) show ?thesis
    by (auto simp: createVote_closed [OF F] word_gt_0 split: if_splits)
qed

theorem createVote_postcondition_witness:
  "options (votes (run demo_cap deployed [tx_create]) 1) = [''Pizza'', ''Salad''] \<and>
   startTime (votes (run demo_cap deployed [tx_create]) 1) = 10 \<and>
   endTime (votes (run demo_cap deployed [tx_create]) 1) = 100"
  using createVote_postcondition [where cap = demo_cap and txs = "[]" and sender = alice and now = 5
      and title' = "''Lunch''" and options' = "[''Pizza'', ''Salad'']" and startTime' = 10
      and endTime' = 100 and s' = "run demo_cap deployed [tx_create]" and voteId = 1, OF refl]
  by (simp add: demo_defs exec_defs)

text \<open>
  The accumulators along a history: each transaction adds to accumulator \<open>i\<close> of a vote
  what \<open>counts_for\<close> counts for it, in 32-bit arithmetic.
\<close>

lemma uint32_eq_of_nat: "i < 2 ^ 32 \<Longrightarrow> ((w :: uint32) = word_of_nat i) = (unat w = i)"
  by (auto simp: unat_of_nat)

lemma decrypt_increment:
  "i < 2 ^ 32 \<Longrightarrow>
   decrypt clear (increment (Input c) i) = word_of_nat (counts_for clear i (Some c))"
  by (simp add: increment_def counts_for_def uint32_eq_of_nat)

lemma accumulator_step:
  assumes w: "wf s"
    and H: "voteId \<noteq> 0 \<and> voteId \<le> voteCount s \<longrightarrow> i < length (options (votes s voteId))"
  shows "accumulator clear (step cap s t) voteId i =
         accumulator clear s voteId i + word_of_nat (counts_for clear i (ballot_choice cap s voteId t))"
proof (cases "tx_call t")
  case (CreateVote title' options' startTime' endTime')
  have Z: "votes s (voteCount s + 1) = zero_Vote" by (rule wf_fresh [OF w])
  from CreateVote Z show ?thesis
    by (auto simp: step_def execute_def ballot_choice_def counts_for_def accumulator_def
        createVote_closed [OF Z] zero_Vote_def)
next
  case (CastVote v c p)
  note L = wf_lengths [OF w, of v]
  have K: "length (options (votes s v)) \<le> 4"
    using wf_consistent [OF w, of v] by (simp add: vote_consistent_def)
  show ?thesis
  proof (cases "v = voteId")
    case False
    with CastVote show ?thesis
      by (auto simp: step_def execute_def ballot_choice_def counts_for_def accumulator_def
          castVote_closed [OF L])
  next
    case True
    show ?thesis
    proof (cases "castVote cap (tx_sender t) (tx_timestamp t) s v c p")
      case (Inl e)
      with CastVote show ?thesis
        by (simp add: step_def execute_def ballot_choice_def counts_for_def)
    next
      case (Inr s')
      from castVote_Inr [OF Inr, of v] H True
      have i: "i < length (options (votes s v))" by simp
      with K have i32: "i < 2 ^ 32" by simp
      from Inr have s': "s' = s\<lparr>hasVoted := (hasVoted s)(v := (hasVoted s v)(tx_sender t := True)),
               votes := (votes s)(v := (votes s v)\<lparr>encryptedCounts :=
                  map (\<lambda>i. FHE_add (encryptedCounts (votes s v) ! i) (increment (Input c) i))
                    [0..<length (options (votes s v))]\<rparr>),
               permissions := (permissions s)\<lparr>allowedThis := allowedThis (permissions s) \<union>
                  (\<lambda>i. FHE_add (encryptedCounts (votes s v) ! i) (increment (Input c) i)) `
                    {0..<length (options (votes s v))}\<rparr>,
               events := events s @ [VoteCast v (tx_sender t)]\<rparr>"
        by (simp add: castVote_closed [OF L] split: if_splits)
      have st: "step cap s t = s'" and bc: "ballot_choice cap s voteId t = Some c"
        using CastVote Inr True by (simp_all add: step_def execute_def ballot_choice_def)
      show ?thesis
        unfolding st bc using i L True
        by (simp add: s' accumulator_def decrypt_increment [OF i32])
    qed
  qed
next
  case (RequestResultsDecryption v)
  then show ?thesis
    by (auto simp: step_def execute_def ballot_choice_def counts_for_def accumulator_def
        requestResultsDecryption_closed)
next
  case (PublishResults v clearCounts decryptionProof)
  note L = wf_lengths [OF w, of v]
  from PublishResults show ?thesis
    by (auto simp: step_def execute_def ballot_choice_def counts_for_def accumulator_def
        publishResults_closed [OF L])
qed

lemma accumulator_run:
  assumes "wf s"
    and "voteId \<noteq> 0 \<and> voteId \<le> voteCount s \<longrightarrow> i < length (options (votes s voteId))"
    and "i < length (options (votes (run cap s txs) voteId))"
  shows "accumulator clear (run cap s txs) voteId i =
         accumulator clear s voteId i + word_of_nat (tally cap clear voteId i s txs)"
  using assms
proof (induction txs arbitrary: s)
  case Nil
  then show ?case by simp
next
  case (Cons t ts)
  have w: "wf (step cap s t)" by (rule wf_step [OF Cons.prems(1)])
  have H: "voteId \<noteq> 0 \<and> voteId \<le> voteCount (step cap s t) \<longrightarrow>
      i < length (options (votes (step cap s t) voteId))"
  proof
    assume a: "voteId \<noteq> 0 \<and> voteId \<le> voteCount (step cap s t)"
    from run_persist [where cap = cap and txs = ts and voter = 0 and s = "step cap s t" and voteId = voteId] a
    have "options (votes (run cap (step cap s t) ts) voteId) = options (votes (step cap s t) voteId)"
      by simp
    with Cons.prems(3) show "i < length (options (votes (step cap s t) voteId))" by simp
  qed
  from Cons.IH [OF w H] Cons.prems(3)
  have "accumulator clear (run cap (step cap s t) ts) voteId i =
      accumulator clear (step cap s t) voteId i + word_of_nat (tally cap clear voteId i (step cap s t) ts)"
    by simp
  with accumulator_step [OF Cons.prems(1) Cons.prems(2), of clear cap t]
  show ?case by simp
qed

lemma accumulator_reachable:
  assumes "i < length (options (votes (run cap deployed txs) voteId))"
  shows "decrypt clear (encryptedCounts (votes (run cap deployed txs) voteId) ! i) =
         word_of_nat (tally cap clear voteId i deployed txs)"
proof -
  have d: "voteId \<noteq> 0 \<and> voteId \<le> voteCount deployed \<longrightarrow> i < length (options (votes deployed voteId))"
    by (simp add: deployed_def)
  have z: "accumulator clear deployed voteId i = 0"
    by (simp add: accumulator_def deployed_def zero_Vote_def)
  from accumulator_run [OF wf_deployed d assms, of clear] z
  have "accumulator clear (run cap deployed txs) voteId i = word_of_nat (tally cap clear voteId i deployed txs)"
    by simp
  moreover have "length (encryptedCounts (votes (run cap deployed txs) voteId)) =
      length (options (votes (run cap deployed txs) voteId))"
    by (rule wf_lengths [OF wf_reachable])
  ultimately show ?thesis using assms by (simp add: accumulator_def)
qed


text \<open>
  The history \<open>crowd_history\<close>: every one of the \<open>2 ^ 32\<close> ballots is accepted, since the
  voters are distinct addresses and the time 20 is inside the window.
\<close>

lemma crowd_voters_distinct:
  assumes "j < crowd" and "a < crowd" and "j \<noteq> a"
  shows "(word_of_nat j :: address) \<noteq> word_of_nat a"
proof
  assume "(word_of_nat j :: address) = word_of_nat a"
  then have "unat (word_of_nat j :: address) = unat (word_of_nat a :: address)" by simp
  moreover have "j < 2 ^ 160" "a < 2 ^ 160" using assms by (simp_all add: crowd_def)
  ultimately show False using assms(3) by (simp add: unat_of_nat)
qed

lemma crowd_tally:
  assumes "wf s" and "1 \<le> voteCount s"
    and "startTime (votes s 1) = 10" and "endTime (votes s 1) = 100"
    and "\<And>j. a \<le> j \<Longrightarrow> j < crowd \<Longrightarrow> \<not> hasVoted s 1 (word_of_nat j)"
  shows "tally demo_cap demo_clear 1 0 s (map tx_crowd [a..<crowd]) = crowd - a"
  using assms
proof (induction "crowd - a" arbitrary: a s)
  case 0
  then show ?case by simp
next
  case (Suc k)
  from Suc.hyps(2) have lt: "a < crowd" by simp
  have k: "k = crowd - Suc a" using Suc.hyps(2) by simp
  note L = wf_lengths [OF Suc.prems(1), of 1]
  have nv: "\<not> hasVoted s 1 (word_of_nat a)" using Suc.prems(5) [of a] lt by simp
  have ex: "execute demo_cap s (tx_crowd a) = castVote demo_cap (word_of_nat a) 20 s 1 0 [1]"
    by (simp add: execute_def tx_crowd_def tx_vote_def)
  have "\<not> isl (castVote demo_cap (word_of_nat a) 20 s 1 0 [1])"
    using Suc.prems(2,3,4) nv by (simp add: castVote_closed [OF L] demo_cap_def del: One_nat_def)
  then obtain s' where ok: "castVote demo_cap (word_of_nat a) 20 s 1 0 [1] = Inr s'"
    by (cases "castVote demo_cap (word_of_nat a) 20 s 1 0 [1]") auto
  have st: "step demo_cap s (tx_crowd a) = s'" using ex ok by (simp add: step_def)
  have bc: "ballot_choice demo_cap s 1 (tx_crowd a) = Some 0"
    using ex ok by (simp add: ballot_choice_def tx_crowd_def tx_vote_def)
  have c1: "counts_for demo_clear 0 (Some 0) = 1" by (simp add: counts_for_def demo_clear_def)
  have w': "wf s'" using wf_step [OF Suc.prems(1), of demo_cap "tx_crowd a"] st by simp
  from castVote_Inr [OF ok, of 1] Suc.prems(2,3,4)
  have f: "1 \<le> voteCount s'" "startTime (votes s' 1) = 10" "endTime (votes s' 1) = 100"
    and h: "hasVoted s' = (hasVoted s)(1 := (hasVoted s 1)(word_of_nat a := True))"
    by simp_all
  have hv: "\<not> hasVoted s' 1 (word_of_nat j)" if "Suc a \<le> j" and "j < crowd" for j
  proof -
    from that lt have "(word_of_nat j :: address) \<noteq> word_of_nat a"
      by (intro crowd_voters_distinct) simp_all
    moreover have "\<not> hasVoted s 1 (word_of_nat j)" using Suc.prems(5) [of j] that by simp
    ultimately show ?thesis by (simp add: h)
  qed
  from Suc.hyps(1) [OF k w' f hv]
  have "tally demo_cap demo_clear 1 0 s' (map tx_crowd [Suc a..<crowd]) = crowd - Suc a" by simp
  then show ?case
    using lt by (simp add: upt_conv_Cons st bc c1 del: One_nat_def)
qed

lemma crowd_history_tally: "tally demo_cap demo_clear 1 0 deployed crowd_history = crowd"
proof -
  let ?s = "step demo_cap deployed tx_create"
  have w: "wf ?s" by (rule wf_step [OF wf_deployed])
  have f: "1 \<le> voteCount ?s" "startTime (votes ?s 1) = 10" "endTime (votes ?s 1) = 100"
    "\<And>j. \<not> hasVoted ?s 1 (word_of_nat j)"
    by (simp_all add: demo_defs exec_defs)
  have b: "ballot_choice demo_cap deployed 1 tx_create = None"
    by (simp add: ballot_choice_def tx_create_def)
  from crowd_tally [OF w f(1,2,3), of 0] f(4)
  have c: "tally demo_cap demo_clear 1 0 ?s (map tx_crowd [0..<crowd]) = crowd" by simp
  have "tally demo_cap demo_clear 1 0 deployed crowd_history =
      counts_for demo_clear 0 (ballot_choice demo_cap deployed 1 tx_create) +
      tally demo_cap demo_clear 1 0 ?s (map tx_crowd [0..<crowd])"
    unfolding crowd_history_def by (simp only: tally.simps)
  then show ?thesis unfolding b c by (simp add: counts_for_def)
qed

lemma crowd_history_options:
  "options (votes (run demo_cap deployed crowd_history) 1) = [''Pizza'', ''Salad'']"
proof -
  let ?s = "step demo_cap deployed tx_create"
  have f: "(1::nat) \<noteq> 0" "1 \<le> voteCount ?s" "options (votes ?s 1) = [''Pizza'', ''Salad'']"
    by (simp_all add: demo_defs exec_defs)
  from run_persist [OF f(1,2), where cap = demo_cap and txs = "map tx_crowd [0..<crowd]" and voter = 0] f(3)
  show ?thesis by (simp add: crowd_history_def)
qed

text \<open>
  C1, as stated, fails: after \<open>2 ^ 32\<close> accepted ballots for option 0 the accumulator of
  option 0 decrypts to 0, not to the number of ballots, because \<open>euint32\<close> addition
  wraps around.
\<close>

theorem oblivious_tally_counterexample:
  "tally demo_cap demo_clear 1 0 deployed crowd_history = 4294967296 \<and>
   unat (decrypt demo_clear (encryptedCounts (votes (run demo_cap deployed crowd_history) 1) ! 0)) = 0 \<and>
   unat (decrypt demo_clear (encryptedCounts (votes (run demo_cap deployed crowd_history) 1) ! 0))
     \<noteq> tally demo_cap demo_clear 1 0 deployed crowd_history"
proof -
  have i: "0 < length (options (votes (run demo_cap deployed crowd_history) 1))"
    unfolding crowd_history_options by simp
  have t: "tally demo_cap demo_clear 1 0 deployed crowd_history = 4294967296"
    unfolding crowd_history_tally by (simp add: crowd_def)
  from accumulator_reachable [OF i, of demo_clear]
  have "decrypt demo_clear (encryptedCounts (votes (run demo_cap deployed crowd_history) 1) ! 0) = 0"
    unfolding t by simp
  with t show ?thesis by simp
qed

text \<open>
  C1, amended. In every reachable state a successful \<open>castVote\<close> with encrypted choice
  \<open>c\<close> replaces every accumulator \<open>A i\<close> of the vote, for every index \<open>i\<close> below the
  option count, by \<open>A i + select (c == i, 1, 0)\<close>; and every accumulator \<open>i\<close> of every
  vote decrypts to the number of accepted ballots of the history whose plain choice
  is \<open>i\<close>, modulo \<open>2 ^ 32\<close> (so to exactly that number while it is below \<open>2 ^ 32\<close>).
\<close>

theorem oblivious_tally:
  assumes "s = run cap deployed txs"
  shows "(castVote cap sender now s voteId c p = Inr s' \<longrightarrow>
            encryptedCounts (votes s' voteId) =
              map (\<lambda>i. FHE_add (encryptedCounts (votes s voteId) ! i)
                        (FHE_select (FHE_eq (Input c) (FHE_asEuint32 (word_of_nat i)))
                           (FHE_asEuint32 1) (FHE_asEuint32 0)))
                  [0..<length (options (votes s voteId))]) \<and>
         (i < length (options (votes s voteId)) \<longrightarrow>
            unat (decrypt clear (encryptedCounts (votes s voteId) ! i)) =
              tally cap clear voteId i deployed txs mod 2 ^ 32)"
proof -
  have L: "length (encryptedCounts (votes s voteId)) = length (options (votes s voteId))"
    unfolding assms by (rule wf_lengths [OF wf_reachable])
  have a: "castVote cap sender now s voteId c p = Inr s' \<longrightarrow>
            encryptedCounts (votes s' voteId) =
              map (\<lambda>i. FHE_add (encryptedCounts (votes s voteId) ! i)
                        (FHE_select (FHE_eq (Input c) (FHE_asEuint32 (word_of_nat i)))
                           (FHE_asEuint32 1) (FHE_asEuint32 0)))
                  [0..<length (options (votes s voteId))]"
    by (auto simp: castVote_closed [OF L] increment_def split: if_splits)
  have b: "unat (decrypt clear (encryptedCounts (votes s voteId) ! i)) =
              tally cap clear voteId i deployed txs mod 2 ^ 32"
    if "i < length (options (votes s voteId))"
    using accumulator_reachable [of i cap txs voteId clear] that
    unfolding assms by (simp add: unat_of_nat)
  from a b show ?thesis by simp
qed

theorem oblivious_tally_witness:
  "encryptedCounts (votes (run demo_cap deployed [tx_create, tx_vote alice 20 1]) 1) =
     [FHE_add (FHE_asEuint32 0) (FHE_select (FHE_eq (Input 1) (FHE_asEuint32 0)) (FHE_asEuint32 1) (FHE_asEuint32 0)),
      FHE_add (FHE_asEuint32 0) (FHE_select (FHE_eq (Input 1) (FHE_asEuint32 1)) (FHE_asEuint32 1) (FHE_asEuint32 0))] \<and>
   tally demo_cap demo_clear 1 0 deployed demo_votes = 2 \<and>
   unat (decrypt demo_clear (encryptedCounts (votes (run demo_cap deployed demo_votes) 1) ! 0)) = 2 \<and>
   tally demo_cap demo_clear 1 1 deployed demo_votes = 1 \<and>
   unat (decrypt demo_clear (encryptedCounts (votes (run demo_cap deployed demo_votes) 1) ! 1)) = 1"
proof -
  have ok: "castVote demo_cap alice 20 (run demo_cap deployed [tx_create]) 1 1 [1] =
      Inr (run demo_cap deployed [tx_create, tx_vote alice 20 1])"
    by (simp add: demo_defs exec_defs)
  have f: "options (votes (run demo_cap deployed [tx_create]) 1) = [''Pizza'', ''Salad'']"
    "encryptedCounts (votes (run demo_cap deployed [tx_create]) 1) = [FHE_asEuint32 0, FHE_asEuint32 0]"
    "options (votes (run demo_cap deployed demo_votes) 1) = [''Pizza'', ''Salad'']"
    by (simp_all add: demo_defs exec_defs)
  have u: "[0..<2] = [0, 1]" by (simp add: upt_rec)
  from oblivious_tally [OF refl, where cap = demo_cap and txs = "[tx_create]" and sender = alice
      and now = 20 and voteId = 1 and c = 1 and p = "[1]"
      and s' = "run demo_cap deployed [tx_create, tx_vote alice 20 1]"] ok f u
  have a: "encryptedCounts (votes (run demo_cap deployed [tx_create, tx_vote alice 20 1]) 1) =
     [FHE_add (FHE_asEuint32 0) (FHE_select (FHE_eq (Input 1) (FHE_asEuint32 0)) (FHE_asEuint32 1) (FHE_asEuint32 0)),
      FHE_add (FHE_asEuint32 0) (FHE_select (FHE_eq (Input 1) (FHE_asEuint32 1)) (FHE_asEuint32 1) (FHE_asEuint32 0))]"
    by simp
  have t: "tally demo_cap demo_clear 1 0 deployed demo_votes = 2"
    "tally demo_cap demo_clear 1 1 deployed demo_votes = 1"
    by (simp_all add: ballot_choice_def counts_for_def demo_defs exec_defs)
  from oblivious_tally [OF refl, where cap = demo_cap and txs = demo_votes and voteId = 1 and i = 0
      and clear = demo_clear] f t
  have b: "unat (decrypt demo_clear (encryptedCounts (votes (run demo_cap deployed demo_votes) 1) ! 0)) = 2"
    by simp
  from oblivious_tally [OF refl, where cap = demo_cap and txs = demo_votes and voteId = 1 and i = 1
      and clear = demo_clear] f t
  have c: "unat (decrypt demo_clear (encryptedCounts (votes (run demo_cap deployed demo_votes) 1) ! 1)) = 1"
    by simp
  from a t b c show ?thesis by simp
qed

end
